theory Spec2Isabelle
  imports Complex_Main "HOL-Library.Log_Nat"
begin

section \<open>JavaScript numbers\<close>

text \<open>
  The calculator computes with JavaScript Numbers, that is IEEE-754 binary64 values.
  A Number is modelled by its kind: NaN, the two infinities, negative zero, or a finite
  value given by the rational it denotes (\<open>Fin 0\<close> is positive zero).  Every arithmetic
  operation computes the exact rational result and rounds it to the nearest binary64
  value, ties to even, as ECMAScript prescribes (\<open>round64\<close>).
\<close>

datatype jsnum = NaN | PInf | NInf | NZero | Fin rat

text \<open>\<open>ilog2 a\<close> is the integer part of the binary logarithm of a positive rational.\<close>

definition ilog2 :: "rat \<Rightarrow> int" where
  "ilog2 a = (let (n, d) = quotient_of a; t = bitlen n - bitlen d
              in if 2 powi t \<le> a then t else t - 1)"

text \<open>Rounding a rational to the nearest integer, ties to the even one.\<close>

definition round_half_even :: "rat \<Rightarrow> int" where
  "round_half_even r = (let f = \<lfloor>r\<rfloor>; d = r - of_int f
     in if d < 1 / 2 then f else if 1 / 2 < d then f + 1 else if even f then f else f + 1)"

text \<open>
  \<open>round64 q\<close> is the binary64 value nearest to \<open>q\<close>: 53 significant bits, exponents
  from -1022 (below that the spacing stays \<open>2 powi (-1074)\<close>: subnormal numbers), overflow to
  an infinity from \<open>2 ^ 1024\<close> on, and underflow to the zero of the sign of \<open>q\<close>.
\<close>

definition round64 :: "rat \<Rightarrow> jsnum" where
  "round64 q = (if q = 0 then Fin 0 else
     let a = \<bar>q\<bar>; e = max (ilog2 a) (- 1022); u = 2 powi (e - 52);
         v = of_int (round_half_even (a / u)) * u
     in if 2 ^ 1024 \<le> v then (if q < 0 then NInf else PInf)
        else if v = 0 then (if q < 0 then NZero else Fin 0)
        else Fin (if q < 0 then - v else v))"

definition js_isNaN :: "jsnum \<Rightarrow> bool" where
  "js_isNaN x = (x = NaN)"

definition js_isInf :: "jsnum \<Rightarrow> bool" where
  "js_isInf x = (x = PInf \<or> x = NInf)"

text \<open>\<open>js_isZero b\<close> is the test \<open>b === 0\<close>: both zeros are strictly equal to 0.\<close>

definition js_isZero :: "jsnum \<Rightarrow> bool" where
  "js_isZero x = (x = Fin 0 \<or> x = NZero)"

text \<open>The global \<open>isFinite\<close> on a Number.\<close>

definition js_isFinite :: "jsnum \<Rightarrow> bool" where
  "js_isFinite x = (x \<noteq> NaN \<and> x \<noteq> PInf \<and> x \<noteq> NInf)"

text \<open>The sign bit (True for negative) and the rational a finite Number denotes.\<close>

fun js_sign :: "jsnum \<Rightarrow> bool" where
  "js_sign NaN = False"
| "js_sign PInf = False"
| "js_sign NInf = True"
| "js_sign NZero = True"
| "js_sign (Fin q) = (q < 0)"

fun js_val :: "jsnum \<Rightarrow> rat" where
  "js_val (Fin q) = q"
| "js_val _ = 0"

definition signed_inf :: "bool \<Rightarrow> jsnum" where
  "signed_inf s = (if s then NInf else PInf)"

definition signed_zero :: "bool \<Rightarrow> jsnum" where
  "signed_zero s = (if s then NZero else Fin 0)"

text \<open>Unary minus.\<close>

fun js_neg :: "jsnum \<Rightarrow> jsnum" where
  "js_neg NaN = NaN"
| "js_neg PInf = NInf"
| "js_neg NInf = PInf"
| "js_neg NZero = Fin 0"
| "js_neg (Fin q) = (if q = 0 then NZero else Fin (- q))"

text \<open>\<open>a + b\<close> (Number::add).\<close>

definition js_add :: "jsnum \<Rightarrow> jsnum \<Rightarrow> jsnum" where
  "js_add a b =
     (if a = NaN \<or> b = NaN then NaN
      else if js_isInf a then (if js_isInf b \<and> a \<noteq> b then NaN else a)
      else if js_isInf b then b
      else if a = NZero \<and> b = NZero then NZero
      else round64 (js_val a + js_val b))"

text \<open>\<open>a - b\<close> (Number::subtract) is \<open>a + (-b)\<close>.\<close>

definition js_sub :: "jsnum \<Rightarrow> jsnum \<Rightarrow> jsnum" where
  "js_sub a b = js_add a (js_neg b)"

text \<open>\<open>a * b\<close> (Number::multiply).\<close>

definition js_mul :: "jsnum \<Rightarrow> jsnum \<Rightarrow> jsnum" where
  "js_mul a b =
     (if a = NaN \<or> b = NaN then NaN
      else let s = (js_sign a \<noteq> js_sign b) in
        if js_isInf a \<or> js_isInf b
        then (if js_isZero a \<or> js_isZero b then NaN else signed_inf s)
        else if js_isZero a \<or> js_isZero b then signed_zero s
        else round64 (js_val a * js_val b))"

text \<open>\<open>a / b\<close> (Number::divide).\<close>

definition js_div :: "jsnum \<Rightarrow> jsnum \<Rightarrow> jsnum" where
  "js_div a b =
     (if a = NaN \<or> b = NaN then NaN
      else let s = (js_sign a \<noteq> js_sign b) in
        if js_isInf a then (if js_isInf b then NaN else signed_inf s)
        else if js_isInf b then signed_zero s
        else if js_isZero b then (if js_isZero a then NaN else signed_inf s)
        else if js_isZero a then signed_zero s
        else round64 (js_val a / js_val b))"

text \<open>The integer square root of a non-negative integer, by binary digits.\<close>

function isqrt :: "int \<Rightarrow> int" where
  "isqrt n = (if n < 4 then (if n \<le> 0 then 0 else 1)
              else let r = 2 * isqrt (n div 4) in if (r + 1) * (r + 1) \<le> n then r + 1 else r)"
  by pat_completeness auto
termination
  by (relation "measure nat") auto

declare isqrt.simps [simp del]

text \<open>
  \<open>Math.sqrt\<close>: the correctly rounded square root, as IEEE-754 requires of the hardware
  operation every engine uses.  For a positive \<open>q\<close> the root lies in the binade of exponent
  \<open>ilog2 q div 2\<close>; its 53-bit significand is the integer root of the scaled argument,
  rounded to nearest.
\<close>

definition sqrt64 :: "rat \<Rightarrow> jsnum" where
  "sqrt64 q = (let e = ilog2 q div 2; u = 2 powi (e - 52); r = q / (u * u);
                   f = isqrt \<lfloor>r\<rfloor>; h = (of_int f + 1 / 2) * (of_int f + 1 / 2);
                   k = (if r < h then f else if h < r then f + 1 else if even f then f else f + 1)
               in Fin (of_int k * u))"

fun js_sqrt :: "jsnum \<Rightarrow> jsnum" where
  "js_sqrt NaN = NaN"
| "js_sqrt PInf = PInf"
| "js_sqrt NInf = NaN"
| "js_sqrt NZero = NZero"
| "js_sqrt (Fin q) = (if q < 0 then NaN else if q = 0 then Fin 0 else sqrt64 q)"

text \<open>
  \<open>Math.pow\<close> (Number::exponentiate).  ECMAScript fixes the result for NaN, zero and
  infinite arguments and for a negative base with a fractional exponent; for the other
  arguments the result is "implementation-approximated".  The model returns the exact
  power where the exponent is an integer and the power is a binary64 value, and asks the
  host's approximation \<open>pw\<close>, a parameter, everywhere else.
\<close>

definition is_int :: "rat \<Rightarrow> bool" where
  "is_int q = (q = of_int \<lfloor>q\<rfloor>)"

definition odd_integral :: "jsnum \<Rightarrow> bool" where
  "odd_integral b = (case b of Fin q \<Rightarrow> is_int q \<and> odd \<lfloor>q\<rfloor> | _ \<Rightarrow> False)"

definition js_positive :: "jsnum \<Rightarrow> bool" where
  "js_positive b = (case b of PInf \<Rightarrow> True | Fin q \<Rightarrow> 0 < q | _ \<Rightarrow> False)"

definition js_pow :: "(rat \<Rightarrow> rat \<Rightarrow> jsnum) \<Rightarrow> jsnum \<Rightarrow> jsnum \<Rightarrow> jsnum" where
  "js_pow pw a b =
     (if b = NaN then NaN
      else if js_isZero b then Fin 1
      else if a = NaN then NaN
      else if a = PInf then (if js_positive b then PInf else Fin 0)
      else if a = NInf then
        (if js_positive b then (if odd_integral b then NInf else PInf)
         else (if odd_integral b then NZero else Fin 0))
      else if a = Fin 0 then (if js_positive b then Fin 0 else PInf)
      else if a = NZero then
        (if js_positive b then (if odd_integral b then NZero else Fin 0)
         else (if odd_integral b then NInf else PInf))
      else if b = PInf then
        (if 1 < \<bar>js_val a\<bar> then PInf else if \<bar>js_val a\<bar> = 1 then NaN else Fin 0)
      else if b = NInf then
        (if 1 < \<bar>js_val a\<bar> then Fin 0 else if \<bar>js_val a\<bar> = 1 then NaN else PInf)
      else if js_val a < 0 \<and> \<not> is_int (js_val b) then NaN
      else let x = js_val a; y = js_val b in
        if is_int y \<and> round64 (x powi \<lfloor>y\<rfloor>) = Fin (x powi \<lfloor>y\<rfloor>)
        then Fin (x powi \<lfloor>y\<rfloor>) else pw x y)"


section \<open>Characters and numeric text\<close>

text \<open>
  A string is a list of characters; a character stands for the UTF-16 code unit of the
  same code, so the strings of the model are the JavaScript strings over the code units
  0 to 255.  The regular expressions of the source are written out as predicates:
  \<open>/\d/\<close> matches the ten ASCII digits, \<open>/\s/\<close> matches (in this range) the codes
  9 to 13, 32 and 160, \<open>/[a-z]/i\<close> the ASCII letters.
\<close>

definition isDigit :: "char \<Rightarrow> bool" where
  "isDigit c = (48 \<le> (of_char c :: nat) \<and> (of_char c :: nat) \<le> 57)"

definition isWhite :: "char \<Rightarrow> bool" where
  "isWhite c = ((9 \<le> (of_char c :: nat) \<and> (of_char c :: nat) \<le> 13)
                \<or> (of_char c :: nat) = 32 \<or> (of_char c :: nat) = 160)"

definition isOperator :: "char \<Rightarrow> bool" where
  "isOperator c = (c \<in> set [CHR ''+'', CHR ''-'', CHR ''*'', CHR ''/'', CHR ''^''])"

text \<open>\<open>/[\d.]/\<close>, \<open>/[a-z]/i\<close> and \<open>/[a-z0-9]/i\<close>.\<close>

definition isNumChar :: "char \<Rightarrow> bool" where
  "isNumChar c = (isDigit c \<or> c = CHR ''.'')"

definition isLetter :: "char \<Rightarrow> bool" where
  "isLetter c = ((65 \<le> (of_char c :: nat) \<and> (of_char c :: nat) \<le> 90)
                 \<or> (97 \<le> (of_char c :: nat) \<and> (of_char c :: nat) \<le> 122))"

definition isLetterOrDigit :: "char \<Rightarrow> bool" where
  "isLetterOrDigit c = (isLetter c \<or> isDigit c)"

text \<open>\<open>String.prototype.trim\<close>: white space is removed at both ends.\<close>

definition trim :: "string \<Rightarrow> string" where
  "trim s = rev (dropWhile isWhite (rev (dropWhile isWhite s)))"

text \<open>
  \<open>Number(text)\<close> (StringToNumber): the text is trimmed; the empty text is 0; otherwise
  it must be a binary, octal or hexadecimal integer literal, or an optionally signed
  decimal literal (digits with an optional fraction and exponent, or \<open>Infinity\<close>); any
  other text is NaN.  The value of the literal is rounded to binary64.
\<close>

definition digit_val :: "char \<Rightarrow> nat" where
  "digit_val c =
     (if isDigit c then of_char c - 48
      else if 97 \<le> (of_char c :: nat) then of_char c - 87 else of_char c - 55)"

definition digits_val :: "nat \<Rightarrow> string \<Rightarrow> nat" where
  "digits_val radix s = foldl (\<lambda>a c. radix * a + digit_val c) 0 s"

definition isRadixDigit :: "nat \<Rightarrow> char \<Rightarrow> bool" where
  "isRadixDigit radix c = ((isDigit c \<or> isLetter c) \<and> digit_val c < radix)"

definition radix_literal :: "string \<Rightarrow> jsnum option" where
  "radix_literal s =
     (case s of
        z # p # ds \<Rightarrow>
          (let radix = (if p = CHR ''x'' \<or> p = CHR ''X'' then 16
                        else if p = CHR ''o'' \<or> p = CHR ''O'' then 8
                        else if p = CHR ''b'' \<or> p = CHR ''B'' then 2 else 0)
           in if z = CHR ''0'' \<and> radix \<noteq> 0 \<and> ds \<noteq> [] \<and> list_all (isRadixDigit radix) ds
              then Some (round64 (of_nat (digits_val radix ds))) else None)
      | _ \<Rightarrow> None)"

definition dec_mantissa :: "string \<Rightarrow> rat option" where
  "dec_mantissa s =
     (let ip = takeWhile isDigit s; r = dropWhile isDigit s in
      case r of
        [] \<Rightarrow> (if ip = [] then None else Some (of_nat (digits_val 10 ip)))
      | c # fp \<Rightarrow>
          if c = CHR ''.'' \<and> list_all isDigit fp \<and> (ip \<noteq> [] \<or> fp \<noteq> [])
          then Some (of_nat (digits_val 10 ip) + of_nat (digits_val 10 fp) / 10 ^ length fp)
          else None)"

definition dec_exponent :: "string \<Rightarrow> int option" where
  "dec_exponent s =
     (let d = (case s of c # r \<Rightarrow> if c = CHR ''+'' \<or> c = CHR ''-'' then r else s | [] \<Rightarrow> s)
      in if d \<noteq> [] \<and> list_all isDigit d
         then Some (if take 1 s = ''-'' then - int (digits_val 10 d) else int (digits_val 10 d))
         else None)"

definition unsigned_decimal :: "string \<Rightarrow> jsnum" where
  "unsigned_decimal s =
     (if s = ''Infinity'' then PInf else
      let notE = (\<lambda>c. c \<noteq> CHR ''e'' \<and> c \<noteq> CHR ''E'') in
      case dec_mantissa (takeWhile notE s) of
        None \<Rightarrow> NaN
      | Some q \<Rightarrow>
          (case dropWhile notE s of
             [] \<Rightarrow> round64 q
           | _ # ex \<Rightarrow> (case dec_exponent ex of None \<Rightarrow> NaN | Some k \<Rightarrow> round64 (q * 10 powi k))))"

definition js_Number :: "string \<Rightarrow> jsnum" where
  "js_Number s =
     (let t = trim s in
      if t = [] then Fin 0
      else case radix_literal t of
        Some v \<Rightarrow> v
      | None \<Rightarrow>
          (case t of
             c # r \<Rightarrow> if c = CHR ''+'' then unsigned_decimal r
                      else if c = CHR ''-'' then js_neg (unsigned_decimal r)
                      else unsigned_decimal t
           | [] \<Rightarrow> Fin 0))"

section \<open>The parser: tokenize, shunting-yard, RPN\<close>

text \<open>
  A token is an object with a \<open>type\<close> (\<open>'num'\<close>, \<open>'op'\<close>, \<open>'func'\<close>, \<open>'percent'\<close>,
  \<open>'('\<close> or \<open>')'\<close>) and, for the first three, a \<open>value\<close>.  Every \<open>throw new Error(msg)\<close>
  of the source is a constructor of \<open>error\<close>; \<open>message\<close> gives its text.
\<close>

datatype token = Num string | Op char | Func string | Percent | LParen | RParen

datatype error =
    InvalidCharacter char
  | MismatchedParentheses
  | UnknownFunction string
  | InvalidPercent
  | InvalidExpression
  | DivideByZero
  | UnknownOp char
  | FuncMissingArg

fun message :: "error \<Rightarrow> string" where
  "message (InvalidCharacter c) = ''Invalid character: '' @ [c]"
| "message MismatchedParentheses = ''Mismatched parentheses''"
| "message (UnknownFunction name) = ''Unknown function: '' @ name"
| "message InvalidPercent = ''Invalid percent''"
| "message InvalidExpression = ''Invalid expression''"
| "message DivideByZero = ''Divide by zero''"
| "message (UnknownOp c) = ''Unknown op '' @ [c]"
| "message FuncMissingArg = ''Func missing arg''"

definition precedence :: "char \<Rightarrow> nat" where
  "precedence op =
     (if op = CHR ''+'' \<or> op = CHR ''-'' then 1
      else if op = CHR ''*'' \<or> op = CHR ''/'' then 2
      else if op = CHR ''^'' then 3
      else 0)"

definition isRightAssoc :: "char \<Rightarrow> bool" where
  "isRightAssoc op = (op = CHR ''^'')"

fun isOp :: "token \<Rightarrow> bool" where
  "isOp (Op c) = True"
| "isOp _ = False"

text \<open>
  \<open>tokenize\<close>: the loop over the index \<open>i\<close> is a recursion over the rest of the string
  from \<open>i\<close>, with the tokens pushed so far.  \<open>unary c tokens\<close> is the test of the source
  for a unary sign: the character is \<open>+\<close> or \<open>-\<close> and there is no previous token, or it
  is a \<open>(\<close> or an operator.
\<close>

definition unary :: "char \<Rightarrow> token list \<Rightarrow> bool" where
  "unary c tokens = ((c = CHR ''+'' \<or> c = CHR ''-'')
                     \<and> (tokens = [] \<or> last tokens = LParen \<or> isOp (last tokens)))"

function tokenize_from :: "token list \<Rightarrow> string \<Rightarrow> error + token list" where
  "tokenize_from tokens [] = Inr tokens"
| "tokenize_from tokens (c # cs) =
     (if isWhite c then tokenize_from tokens cs
      else if isDigit c \<or> c = CHR ''.'' then
        tokenize_from (tokens @ [Num (takeWhile isNumChar (c # cs))])
                      (dropWhile isNumChar (c # cs))
      else if c = CHR ''('' then tokenize_from (tokens @ [LParen]) cs
      else if c = CHR '')'' then tokenize_from (tokens @ [RParen]) cs
      else if c = CHR ''%'' then tokenize_from (tokens @ [Percent]) cs
      else if isOperator c then
        (if unary c tokens
         then tokenize_from (tokens @ [Num ''0'', Op c]) cs
         else tokenize_from (tokens @ [Op c]) cs)
      else if isLetter c then
        tokenize_from (tokens @ [Func (takeWhile isLetterOrDigit (c # cs))])
                      (dropWhile isLetterOrDigit (c # cs))
      else Inl (InvalidCharacter c))"
  by pat_completeness auto
termination
proof (relation "measure (\<lambda>(tokens, s). length s)")
  show "wf (measure (\<lambda>(tokens, s). length s))" by simp
qed (auto simp: isNumChar_def isLetterOrDigit_def less_Suc_eq_le length_dropWhile_le)

definition tokenize :: "string \<Rightarrow> error + token list" where
  "tokenize s = tokenize_from [] s"

text \<open>
  \<open>toRPN\<close>: the state of the loop is the output and the operator stack; the stack is a
  list with its top first.  \<open>pop_ops\<close> is the inner loop of the operator case, 
  \<open>pop_to_paren\<close> the one of the closing parenthesis, \<open>drain\<close> the final loop.
\<close>

fun pop_ops :: "char \<Rightarrow> token list \<Rightarrow> token list \<Rightarrow> token list \<times> token list" where
  "pop_ops c out [] = (out, [])"
| "pop_ops c out (Op d # ops) =
     (if (isRightAssoc c \<and> precedence c < precedence d)
         \<or> (\<not> isRightAssoc c \<and> precedence c \<le> precedence d)
      then pop_ops c (out @ [Op d]) ops else (out, Op d # ops))"
| "pop_ops c out (tp # ops) = (out, tp # ops)"

fun pop_to_paren :: "token list \<Rightarrow> token list \<Rightarrow> token list \<times> token list" where
  "pop_to_paren out [] = (out, [])"
| "pop_to_paren out (tp # ops) =
     (if tp \<noteq> LParen then pop_to_paren (out @ [tp]) ops else (out, tp # ops))"

fun toRPN_step :: "token \<Rightarrow> token list \<times> token list \<Rightarrow> error + token list \<times> token list" where
  "toRPN_step (Num v) (out, ops) = Inr (out @ [Num v], ops)"
| "toRPN_step (Func f) (out, ops) = Inr (out, Func f # ops)"
| "toRPN_step Percent (out, ops) = Inr (out @ [Percent, Op (CHR ''%'')], ops)"
| "toRPN_step (Op c) (out, ops) =
     (case pop_ops c out ops of (out', ops') \<Rightarrow> Inr (out', Op c # ops'))"
| "toRPN_step LParen (out, ops) = Inr (out, LParen # ops)"
| "toRPN_step RParen (out, ops) =
     (case pop_to_paren out ops of
        (out', []) \<Rightarrow> Inl MismatchedParentheses
      | (out', lp # Func f # ops') \<Rightarrow> Inr (out' @ [Func f], ops')
      | (out', lp # ops') \<Rightarrow> Inr (out', ops'))"

fun toRPN_loop :: "token list \<Rightarrow> token list \<times> token list \<Rightarrow> error + token list \<times> token list" where
  "toRPN_loop [] st = Inr st"
| "toRPN_loop (t # ts) st =
     (case toRPN_step t st of Inl e \<Rightarrow> Inl e | Inr st' \<Rightarrow> toRPN_loop ts st')"

fun drain :: "token list \<Rightarrow> token list \<Rightarrow> error + token list" where
  "drain out [] = Inr out"
| "drain out (x # ops) =
     (if x = LParen \<or> x = RParen then Inl MismatchedParentheses else drain (out @ [x]) ops)"

definition toRPN :: "token list \<Rightarrow> error + token list" where
  "toRPN tokens =
     (case toRPN_loop tokens ([], []) of Inl e \<Rightarrow> Inl e | Inr (out, ops) \<Rightarrow> drain out ops)"

text \<open>\<open>callFunc(name, args)\<close>; \<open>args[0]\<close> of an empty array is undefined, whose root is NaN.\<close>

definition callFunc :: "string \<Rightarrow> jsnum list \<Rightarrow> error + jsnum" where
  "callFunc name args =
     (if name = ''sqrt'' then Inr (case args of [] \<Rightarrow> NaN | a # _ \<Rightarrow> js_sqrt a)
      else Inl (UnknownFunction name))"

text \<open>
  \<open>evalRPN\<close>: the value stack is a list with its top first.  \<open>pw\<close> is the host's
  approximation behind \<open>Math.pow\<close>.  A token of another type than \<open>'num'\<close>, \<open>'op'\<close> and
  \<open>'func'\<close> matches no branch of the loop body and leaves the stack as it is.
\<close>

fun evalRPN_step :: "(rat \<Rightarrow> rat \<Rightarrow> jsnum) \<Rightarrow> token \<Rightarrow> jsnum list \<Rightarrow> error + jsnum list" where
  "evalRPN_step pw (Num v) st = Inr (js_Number v # st)"
| "evalRPN_step pw (Op c) st =
     (if c = CHR ''%'' then
        (case st of [] \<Rightarrow> Inl InvalidPercent | a # st' \<Rightarrow> Inr (js_div a (Fin 100) # st'))
      else
        (case st of
           b # a # st' \<Rightarrow>
             if c = CHR ''+'' then Inr (js_add a b # st')
             else if c = CHR ''-'' then Inr (js_sub a b # st')
             else if c = CHR ''*'' then Inr (js_mul a b # st')
             else if c = CHR ''/'' then
               (if js_isZero b then Inl DivideByZero else Inr (js_div a b # st'))
             else if c = CHR ''^'' then Inr (js_pow pw a b # st')
             else Inl (UnknownOp c)
         | _ \<Rightarrow> Inl InvalidExpression))"
| "evalRPN_step pw (Func name) st =
     (case st of
        [] \<Rightarrow> Inl FuncMissingArg
      | a # st' \<Rightarrow> (case callFunc name [a] of Inl e \<Rightarrow> Inl e | Inr v \<Rightarrow> Inr (v # st')))"
| "evalRPN_step pw t st = Inr st"

fun evalRPN_loop :: "(rat \<Rightarrow> rat \<Rightarrow> jsnum) \<Rightarrow> token list \<Rightarrow> jsnum list \<Rightarrow> error + jsnum list" where
  "evalRPN_loop pw [] st = Inr st"
| "evalRPN_loop pw (t # ts) st =
     (case evalRPN_step pw t st of Inl e \<Rightarrow> Inl e | Inr st' \<Rightarrow> evalRPN_loop pw ts st')"

definition evalRPN :: "(rat \<Rightarrow> rat \<Rightarrow> jsnum) \<Rightarrow> token list \<Rightarrow> error + jsnum" where
  "evalRPN pw rpn =
     (case evalRPN_loop pw rpn [] of
        Inl e \<Rightarrow> Inl e
      | Inr st \<Rightarrow> if length st \<noteq> 1 then Inl InvalidExpression else Inr (last st))"

definition evaluateExpression :: "(rat \<Rightarrow> rat \<Rightarrow> jsnum) \<Rightarrow> string \<Rightarrow> error + jsnum" where
  "evaluateExpression pw s =
     (if s = [] \<or> trim s = [] then Inr (Fin 0)
      else case tokenize s of
        Inl e \<Rightarrow> Inl e
      | Inr tokens \<Rightarrow>
          (case toRPN tokens of Inl e \<Rightarrow> Inl e | Inr rpn \<Rightarrow> evalRPN pw rpn))"

section \<open>Formatting\<close>

text \<open>
  \<open>Math.round\<close>, \<open>Math.abs\<close> and the comparison \<open><\<close> on Numbers.  \<open>Math.round\<close>
  returns the integer nearest to its argument, the larger one at a tie, with a zero of the
  sign of the argument where the result is zero.
\<close>

fun js_round :: "jsnum \<Rightarrow> jsnum" where
  "js_round (Fin q) =
     (if is_int q then Fin q
      else if 0 < q \<and> q < 1 / 2 then Fin 0
      else if q < 0 \<and> - (1 / 2) \<le> q then NZero
      else Fin (of_int \<lfloor>q + 1 / 2\<rfloor>))"
| "js_round x = x"

fun js_abs :: "jsnum \<Rightarrow> jsnum" where
  "js_abs NaN = NaN"
| "js_abs PInf = PInf"
| "js_abs NInf = PInf"
| "js_abs NZero = Fin 0"
| "js_abs (Fin q) = Fin \<bar>q\<bar>"

definition js_lt :: "jsnum \<Rightarrow> jsnum \<Rightarrow> bool" where
  "js_lt a b =
     (if a = NaN \<or> b = NaN then False
      else if a = PInf \<or> b = NInf then False
      else if a = NInf \<or> b = PInf then True
      else js_val a < js_val b)"

text \<open>The decimal digits of a non-negative integer.\<close>

definition digit_char :: "int \<Rightarrow> char" where
  "digit_char d = char_of (48 + nat d)"

function dec_digits :: "int \<Rightarrow> string" where
  "dec_digits n = (if n < 10 then [digit_char n] else dec_digits (n div 10) @ [digit_char (n mod 10)])"
  by pat_completeness auto
termination
  by (relation "measure nat") auto

declare dec_digits.simps [simp del]

text \<open>\<open>ilog10 a\<close> is the integer part of the decimal logarithm of a positive rational.\<close>

definition ilog10 :: "rat \<Rightarrow> int" where
  "ilog10 a = (let (n, d) = quotient_of a;
                   t = int (floorlog 10 (nat n)) - int (floorlog 10 (nat d))
               in if 10 powi t \<le> a then t else t - 1)"

text \<open>
  \<open>String(x)\<close> (Number::toString, radix 10).  For a positive finite \<open>x\<close> ECMAScript takes
  integers \<open>n\<close>, \<open>k\<close> and \<open>s\<close> with \<open>k\<close> digits in \<open>s\<close>, such that \<open>s * 10 powi (n - k)\<close>
  rounds to \<open>x\<close> and \<open>k\<close> is as small as possible (the shortest decimal that reads back as
  \<open>x\<close>; among several, the closest to \<open>x\<close>).  \<open>shortest fuel k x n\<close> searches \<open>k\<close> upwards:
  with \<open>n\<close> the number of integer digits of \<open>x\<close>, the candidates with \<open>k\<close> digits are the two
  neighbours of \<open>x\<close> scaled by \<open>10 powi (n - k)\<close>.  Seventeen digits suffice for every
  binary64 value; the bound \<open>fuel\<close> only makes the search total.
\<close>

fun shortest :: "nat \<Rightarrow> int \<Rightarrow> rat \<Rightarrow> int \<Rightarrow> int \<times> int" where
  "shortest 0 k x n = (\<lfloor>x / 10 powi (n - k)\<rfloor>, n)"
| "shortest (Suc fuel) k x n =
     (let sc = 10 powi (n - k); t = x / sc; lo = \<lfloor>t\<rfloor>; hi = lo + 1;
          oklo = (round64 (of_int lo * sc) = Fin x);
          okhi = (round64 (of_int hi * sc) = Fin x)
      in if oklo \<and> (\<not> okhi \<or> t - of_int lo < of_int hi - t
                      \<or> (t - of_int lo = of_int hi - t \<and> even lo)) then (lo, n)
         else if okhi then (if hi = 10 ^ nat k then (1, n + 1) else (hi, n))
         else shortest fuel (k + 1) x n)"

definition render_digits :: "int \<Rightarrow> int \<Rightarrow> string" where
  "render_digits s n =
     (let ds = dec_digits s; k = int (length ds) in
      if - 5 \<le> n \<and> n \<le> 21 then
        (if k \<le> n then ds @ replicate (nat (n - k)) (CHR ''0'')
         else if 0 < n then take (nat n) ds @ ''.'' @ drop (nat n) ds
         else ''0.'' @ replicate (nat (- n)) (CHR ''0'') @ ds)
      else
        (let e = n - 1; es = (if e < 0 then ''-'' else ''+'') @ dec_digits \<bar>e\<bar> in
         if k = 1 then ds @ ''e'' @ es
         else take 1 ds @ ''.'' @ drop 1 ds @ ''e'' @ es))"

fun js_toString :: "jsnum \<Rightarrow> string" where
  "js_toString NaN = ''NaN''"
| "js_toString PInf = ''Infinity''"
| "js_toString NInf = ''-Infinity''"
| "js_toString NZero = ''0''"
| "js_toString (Fin q) =
     (if q = 0 then ''0''
      else case shortest (Suc 20) 1 \<bar>q\<bar> (ilog10 \<bar>q\<bar> + 1) of
        (s, n) \<Rightarrow> (if q < 0 then ''-'' else []) @ render_digits s n)"

text \<open>
  \<open>x.toFixed(f)\<close> (Number.prototype.toFixed) for \<open>f\<close> from 0 to 100: the integer \<open>n\<close>
  nearest to \<open>x * 10 ^ f\<close>, the larger one at a tie, written with a decimal point before
  its last \<open>f\<close> digits; from \<open>10 ^ 21\<close> on the result is \<open>String(x)\<close>.
\<close>

definition js_toFixed :: "nat \<Rightarrow> jsnum \<Rightarrow> string" where
  "js_toFixed f x =
     (if \<not> js_isFinite x then js_toString x
      else let v = js_val x; sg = (if v < 0 then ''-'' else []); a = \<bar>v\<bar> in
        if 10 ^ 21 \<le> a then sg @ js_toString (Fin a)
        else let n = \<lfloor>a * 10 ^ f + 1 / 2\<rfloor>;
                 m = (if n = 0 then ''0'' else dec_digits n);
                 m' = (if length m \<le> f then replicate (f + 1 - length m) (CHR ''0'') @ m else m);
                 k = length m'
             in if f \<noteq> 0 then sg @ take (k - f) m' @ ''.'' @ drop (k - f) m' else sg @ m)"

text \<open>
  \<open>s.replace(/\.?0+$/, '')\<close>: the leftmost position from which an optional point and
  then one or more zeros reach the end of the string; the string is cut there.
  \<open>zeros_to_end s\<close> says that the pattern matches all of \<open>s\<close>.
\<close>

definition zeros_to_end :: "string \<Rightarrow> bool" where
  "zeros_to_end s =
     (case s of
        [] \<Rightarrow> False
      | c # r \<Rightarrow> (c = CHR ''.'' \<and> r \<noteq> [] \<and> list_all (\<lambda>d. d = CHR ''0'') r)
                 \<or> list_all (\<lambda>d. d = CHR ''0'') s)"

fun strip_zeros :: "string \<Rightarrow> string" where
  "strip_zeros [] = []"
| "strip_zeros (c # cs) = (if zeros_to_end (c # cs) then [] else c # strip_zeros cs)"

text \<open>The numeric literal \<open>1e-12\<close>: the binary64 value nearest to \<open>1 / 10 ^ 12\<close>.\<close>

definition js_1e_12 :: jsnum where
  "js_1e_12 = round64 (1 / 10 ^ 12)"

definition formatNumber :: "jsnum \<Rightarrow> string" where
  "formatNumber n =
     (if \<not> js_isFinite n then ''Error''
      else if js_lt (js_abs (js_sub n (js_round n))) js_1e_12
           then js_toString (js_round n)
      else strip_zeros (js_toFixed 12 n))"

text \<open>The test of \<open>formatNumber\<close> for a number that is an integer up to \<open>1e-12\<close>.\<close>

definition near_integer :: "jsnum \<Rightarrow> bool" where
  "near_integer n = js_lt (js_abs (js_sub n (js_round n))) js_1e_12"

section \<open>Reference notions\<close>

text \<open>
  The claims compare the program with notions the specification states in words.  These
  are defined here, independently of the program: balanced parentheses, and the standard
  reading of an arithmetic expression.
\<close>

text \<open>
  \<open>paren_depth d ts\<close> scans the tokens from nesting depth \<open>d\<close>: \<open>None\<close> when a closing
  parenthesis has no open partner, otherwise the depth at the end.  The parentheses are
  balanced when the scan from depth 0 ends at depth 0.
\<close>

fun paren_depth :: "nat \<Rightarrow> token list \<Rightarrow> nat option" where
  "paren_depth d [] = Some d"
| "paren_depth d (LParen # ts) = paren_depth (Suc d) ts"
| "paren_depth d (RParen # ts) = (case d of 0 \<Rightarrow> None | Suc d' \<Rightarrow> paren_depth d' ts)"
| "paren_depth d (t # ts) = paren_depth d ts"

definition balanced :: "token list \<Rightarrow> bool" where
  "balanced ts = (paren_depth 0 ts = Some 0)"

text \<open>The same scan over the characters of a text.\<close>

fun text_depth :: "nat \<Rightarrow> string \<Rightarrow> nat option" where
  "text_depth d [] = Some d"
| "text_depth d (c # cs) =
     (if c = CHR ''('' then text_depth (Suc d) cs
      else if c = CHR '')'' then (case d of 0 \<Rightarrow> None | Suc d' \<Rightarrow> text_depth d' cs)
      else text_depth d cs)"

definition balanced_text :: "string \<Rightarrow> bool" where
  "balanced_text s = (text_depth 0 s = Some 0)"

text \<open>
  Arithmetic expressions built from number literals, the five binary operators and
  parentheses, as parse trees.  \<open>render\<close> is the text of a tree, \<open>expr_tokens\<close> its token
  sequence and \<open>postfix\<close> its postfix form.
\<close>

datatype expr = Lit string | Paren expr | Bin expr char expr

fun render :: "expr \<Rightarrow> string" where
  "render (Lit s) = s"
| "render (Paren e) = ''('' @ render e @ '')''"
| "render (Bin l c r) = render l @ [c] @ render r"

fun expr_tokens :: "expr \<Rightarrow> token list" where
  "expr_tokens (Lit s) = [Num s]"
| "expr_tokens (Paren e) = [LParen] @ expr_tokens e @ [RParen]"
| "expr_tokens (Bin l c r) = expr_tokens l @ [Op c] @ expr_tokens r"

fun postfix :: "expr \<Rightarrow> token list" where
  "postfix (Lit s) = [Num s]"
| "postfix (Paren e) = postfix e"
| "postfix (Bin l c r) = postfix l @ postfix r @ [Op c]"

text \<open>
  The standard grammar of precedence and associativity, by levels: an expression (level
  1) is a sum or difference of terms, grouped from the left; a term (level 2) is a product
  or quotient of factors, grouped from the left; a factor (level 3) is an atom, or an atom
  raised to a factor (grouped from the right); an atom (level 4) is a number literal or an
  expression in parentheses.  \<open>grammar p e\<close> says that the tree \<open>e\<close> is a parse tree of
  level \<open>p\<close>.  A number literal is a non-empty run of digits and points.
\<close>

fun grammar :: "nat \<Rightarrow> expr \<Rightarrow> bool" where
  "grammar p (Lit s) = (s \<noteq> [] \<and> list_all isNumChar s)"
| "grammar p (Paren e) = grammar 1 e"
| "grammar p (Bin l c r) =
     (if c = CHR ''+'' \<or> c = CHR ''-'' then p \<le> 1 \<and> grammar 1 l \<and> grammar 2 r
      else if c = CHR ''*'' \<or> c = CHR ''/'' then p \<le> 2 \<and> grammar 2 l \<and> grammar 3 r
      else if c = CHR ''^'' then p \<le> 3 \<and> grammar 4 l \<and> grammar 3 r
      else False)"

text \<open>
  The standard value of a parse tree: the operands are evaluated from left to right and
  the operator is applied to their values; a division by zero is the error the program
  documents for it.
\<close>

definition std_apply :: "(rat \<Rightarrow> rat \<Rightarrow> jsnum) \<Rightarrow> char \<Rightarrow> jsnum \<Rightarrow> jsnum \<Rightarrow> error + jsnum" where
  "std_apply pw c a b =
     (if c = CHR ''+'' then Inr (js_add a b)
      else if c = CHR ''-'' then Inr (js_sub a b)
      else if c = CHR ''*'' then Inr (js_mul a b)
      else if c = CHR ''/'' then (if js_isZero b then Inl DivideByZero else Inr (js_div a b))
      else if c = CHR ''^'' then Inr (js_pow pw a b)
      else Inl (UnknownOp c))"

fun std_value :: "(rat \<Rightarrow> rat \<Rightarrow> jsnum) \<Rightarrow> expr \<Rightarrow> error + jsnum" where
  "std_value pw (Lit s) = Inr (js_Number s)"
| "std_value pw (Paren e) = std_value pw e"
| "std_value pw (Bin l c r) =
     (case std_value pw l of
        Inl e \<Rightarrow> Inl e
      | Inr a \<Rightarrow> (case std_value pw r of Inl e \<Rightarrow> Inl e | Inr b \<Rightarrow> std_apply pw c a b))"

text \<open>
  A NaN operand makes the result of \<open>+\<close>, \<open>-\<close>, \<open>*\<close> and \<open>/\<close> NaN.  A power is NaN
  when its exponent is NaN, or when its base is NaN and its exponent is not zero (a power
  with exponent zero is 1 whatever the base).  \<open>nan_flows pw e\<close> says that a NaN literal
  of \<open>e\<close> reaches the value of \<open>e\<close> along such steps.
\<close>

fun nan_flows :: "(rat \<Rightarrow> rat \<Rightarrow> jsnum) \<Rightarrow> expr \<Rightarrow> bool" where
  "nan_flows pw (Lit s) = (js_Number s = NaN)"
| "nan_flows pw (Paren e) = nan_flows pw e"
| "nan_flows pw (Bin l c r) =
     (if c = CHR ''^''
      then nan_flows pw r
           \<or> (nan_flows pw l \<and> (case std_value pw r of Inr b \<Rightarrow> \<not> js_isZero b | Inl err \<Rightarrow> True))
      else nan_flows pw l \<or> nan_flows pw r)"

text \<open>
  The flow of NaN through the evaluation of a postfix program, for every input.  Beside
  the value stack of the evaluator runs a stack of marks, one for each value.  A number is
  marked when its text converts to NaN.  The result of \<open>+ - * /\<close> is marked when an
  operand is; the result of \<open>^\<close> when the exponent is marked, or the base is marked and
  the exponent is not zero; percent and a function keep the mark of their operand.  The
  marks are lost when a step of the evaluator throws.  \<open>nan_reaches pw s\<close> says that the
  text \<open>s\<close> is tokenized and converted, and that its program ends with one mark, set: the
  NaN of a number has reached the result.
\<close>

fun flow_step :: "token \<Rightarrow> jsnum list \<Rightarrow> bool list \<Rightarrow> bool list" where
  "flow_step (Num t) st ms = (js_Number t = NaN) # ms"
| "flow_step (Op c) st ms =
     (if c = CHR ''%'' then ms
      else case (st, ms) of
        (b # a # st', mb # ma # ms') \<Rightarrow>
          (if c = CHR ''^'' then mb \<or> (ma \<and> \<not> js_isZero b) else ma \<or> mb) # ms'
      | _ \<Rightarrow> ms)"
| "flow_step t st ms = ms"

fun flow_loop :: "(rat \<Rightarrow> rat \<Rightarrow> jsnum) \<Rightarrow> token list \<Rightarrow> jsnum list \<Rightarrow> bool list \<Rightarrow> bool list" where
  "flow_loop pw [] st ms = ms"
| "flow_loop pw (t # ts) st ms =
     (case evalRPN_step pw t st of
        Inl e \<Rightarrow> []
      | Inr st' \<Rightarrow> flow_loop pw ts st' (flow_step t st ms))"

definition nan_reaches :: "(rat \<Rightarrow> rat \<Rightarrow> jsnum) \<Rightarrow> string \<Rightarrow> bool" where
  "nan_reaches pw s =
     (case tokenize s of
        Inl e \<Rightarrow> False
      | Inr ts \<Rightarrow> (case toRPN ts of Inl e \<Rightarrow> False | Inr rpn \<Rightarrow> flow_loop pw rpn [] [] = [True]))"

text \<open>
  A host for the concrete instances below: its approximation of an inexact power is NaN.
  None of the instances asks for it.
\<close>

definition sample_host :: "rat \<Rightarrow> rat \<Rightarrow> jsnum" where
  "sample_host x y = NaN"

text \<open>
  The notions of the formatting rule.  \<open>nearest n\<close> is the integer nearest to a finite
  number, the larger one at a tie.  \<open>int_string i\<close> is the decimal numeral of an integer:
  its digits, after a minus sign when it is negative.  \<open>fixed_digits f r\<close> are the last
  \<open>f\<close> decimal digits of \<open>r\<close>, zeros included, and \<open>std_fixed f a\<close> is the decimal
  numeral of a non-negative \<open>a\<close> rounded to \<open>f\<close> fractional digits, half up.
  \<open>std_strip s\<close> removes the zeros at the end of \<open>s\<close>, and then a point at the end.
\<close>

definition nearest :: "jsnum \<Rightarrow> int" where
  "nearest n = \<lfloor>js_val n + 1 / 2\<rfloor>"

definition int_string :: "int \<Rightarrow> string" where
  "int_string i = (if i < 0 then ''-'' else []) @ dec_digits \<bar>i\<bar>"

primrec fixed_digits :: "nat \<Rightarrow> int \<Rightarrow> string" where
  "fixed_digits 0 r = []"
| "fixed_digits (Suc f) r = fixed_digits f (r div 10) @ [digit_char (r mod 10)]"

definition std_fixed :: "nat \<Rightarrow> rat \<Rightarrow> string" where
  "std_fixed f a = (let N = \<lfloor>a * 10 ^ f + 1 / 2\<rfloor>
                    in dec_digits (N div 10 ^ f) @ ''.'' @ fixed_digits f (N mod 10 ^ f))"

definition std_strip :: "string \<Rightarrow> string" where
  "std_strip s = (let t = rev (dropWhile (\<lambda>c. c = CHR ''0'') (rev s))
                  in if t \<noteq> [] \<and> last t = CHR ''.'' then butlast t else t)"

section \<open>Notions of the proofs\<close>

text \<open>
  While the converter reads the tokens of a parse tree, the operators on the right spine
  of the tree wait on the stack (\<open>pending\<close>) and the rest of its postfix form is already
  in the output (\<open>emitted\<close>).  \<open>pops c d\<close> is the test of the inner loop of the converter:
  the operator \<open>d\<close> on top of the stack is popped before \<open>c\<close> is pushed.  \<open>low p ops\<close> says
  that the top of the stack \<open>ops\<close> lets a parse tree of level \<open>p\<close> be read: it is no
  function, and no operator that an operator of the tree would pop.
\<close>

fun pending :: "expr \<Rightarrow> token list" where
  "pending (Bin l c r) = pending r @ [Op c]"
| "pending e = []"

fun emitted :: "expr \<Rightarrow> token list" where
  "emitted (Lit s) = [Num s]"
| "emitted (Paren e) = postfix e"
| "emitted (Bin l c r) = postfix l @ emitted r"

definition pops :: "char \<Rightarrow> char \<Rightarrow> bool" where
  "pops c d = ((isRightAssoc c \<and> precedence c < precedence d)
               \<or> (\<not> isRightAssoc c \<and> precedence c \<le> precedence d))"

fun low :: "nat \<Rightarrow> token list \<Rightarrow> bool" where
  "low p [] = True"
| "low p (Op d # ops) = (p \<le> 2 \<longrightarrow> precedence d < p)"
| "low p (Func f # ops) = False"
| "low p (t # ops) = True"

text \<open>The marks are sound for a value stack when every marked value is NaN.\<close>

definition marked :: "bool list \<Rightarrow> jsnum list \<Rightarrow> bool" where
  "marked ms st = list_all2 (\<lambda>m x. m \<longrightarrow> x = NaN) ms st"

section \<open>Properties\<close>

subsection \<open>Rounding, roots and evaluation\<close>

text \<open>
  Every binary64 value is a fixed point of \<open>round64\<close>: an integer significand below
  \<open>2 ^ 53\<close> times a power of two from \<open>2 powi (-1074)\<close> on, below \<open>2 ^ 1024\<close>.  So the
  arithmetic of the model is exact where the exact result is a binary64 value, in
  particular on integers below \<open>2 ^ 53\<close>.
\<close>

lemma powi2_less_iff: "(2::rat) powi m < 2 powi n \<longleftrightarrow> m < n"
proof
  assume a: "(2::rat) powi m < 2 powi n"
  show "m < n"
  proof (rule ccontr)
    assume "\<not> m < n"
    then have "(2::rat) powi n \<le> 2 powi m" by (intro power_int_increasing) auto
    with a show False by simp
  qed
next
  assume "m < n"
  then show "(2::rat) powi m < 2 powi n" by (intro power_int_strict_increasing) auto
qed

lemma powi2_le_iff: "(2::rat) powi m \<le> 2 powi n \<longleftrightarrow> m \<le> n"
  using powi2_less_iff [of n m] by (auto simp: not_less [symmetric])

lemma powi2_pos: "(0::rat) < 2 powi n"
  by simp

lemma of_int_bitlen_bounds:
  assumes "0 < n"
  shows "(2::rat) powi (bitlen n - 1) \<le> of_int n" and "(of_int n :: rat) < 2 powi (bitlen n)"
proof -
  from assms have b: "1 \<le> bitlen n"
    using bitlen_eq_zero_iff [of n] bitlen_nonneg [of n] by linarith
  from bitlen_bounds [OF assms]
  have 1: "2 ^ nat (bitlen n - 1) \<le> n" and 2: "n < 2 ^ nat (bitlen n)" by auto
  from 1 have "(of_int (2 ^ nat (bitlen n - 1)) :: rat) \<le> of_int n"
    by (simp only: of_int_le_iff)
  then show "(2::rat) powi (bitlen n - 1) \<le> of_int n"
    using b by (simp add: power_int_nonneg_exp)
  from 2 have "(of_int n :: rat) < of_int (2 ^ nat (bitlen n))"
    by (simp only: of_int_less_iff)
  then show "(of_int n :: rat) < 2 powi (bitlen n)"
    using b by (simp add: power_int_nonneg_exp)
qed

lemma ilog2_bounds:
  assumes "0 < a"
  shows "2 powi (ilog2 a) \<le> a \<and> a < 2 powi (ilog2 a + 1)"
proof -
  obtain n d where qd: "quotient_of a = (n, d)" by (cases "quotient_of a")
  then have d: "0 < d" and a: "a = of_int n / of_int d"
    using quotient_of_denom_pos quotient_of_div by auto
  with assms have n: "0 < n" by (simp add: zero_less_divide_iff)
  define t where "t = bitlen n - bitlen d"
  have dpos: "(0::rat) < of_int d" using d by simp
  have "a < 2 powi (bitlen n) / 2 powi (bitlen d - 1)"
  proof -
    have "a < 2 powi (bitlen n) / of_int d"
      unfolding a using of_int_bitlen_bounds(2) [OF n] dpos by (simp add: divide_strict_right_mono)
    also have "\<dots> \<le> 2 powi (bitlen n) / 2 powi (bitlen d - 1)"
      using of_int_bitlen_bounds(1) [OF d] by (simp add: frac_le)
    finally show ?thesis .
  qed
  moreover have "(2::rat) powi (bitlen n - (bitlen d - 1)) = 2 powi (bitlen n) / 2 powi (bitlen d - 1)"
    by (rule power_int_diff) simp
  moreover have "bitlen n - (bitlen d - 1) = t + 1" by (simp add: t_def)
  ultimately have up: "a < 2 powi (t + 1)" by simp
  have "2 powi (bitlen n - 1) / 2 powi (bitlen d) < a"
  proof -
    have "2 powi (bitlen n - 1) / 2 powi (bitlen d) < 2 powi (bitlen n - 1) / (of_int d :: rat)"
      using of_int_bitlen_bounds(2) [OF d] dpos by (simp add: frac_less2)
    also have "\<dots> \<le> a"
      unfolding a using of_int_bitlen_bounds(1) [OF n] dpos by (simp add: divide_right_mono)
    finally show ?thesis .
  qed
  moreover have "(2::rat) powi (bitlen n - 1 - bitlen d) = 2 powi (bitlen n - 1) / 2 powi (bitlen d)"
    by (rule power_int_diff) simp
  moreover have "bitlen n - 1 - bitlen d = t - 1" by (simp add: t_def)
  ultimately have lo: "2 powi (t - 1) < a" by simp
  have il: "ilog2 a = (if 2 powi t \<le> a then t else t - 1)"
    by (simp add: ilog2_def qd t_def)
  show ?thesis
  proof (cases "2 powi t \<le> a")
    case True
    with up il show ?thesis by simp
  next
    case False
    with lo il show ?thesis by simp
  qed
qed

lemma ilog2_unique:
  assumes "2 powi k \<le> a" "a < 2 powi (k + 1)"
  shows "ilog2 a = k"
proof -
  have "0 < a" using assms(1) powi2_pos [of k] by linarith
  from ilog2_bounds [OF this] have b: "2 powi (ilog2 a) \<le> a" "a < 2 powi (ilog2 a + 1)" by auto
  have "(2::rat) powi k < 2 powi (ilog2 a + 1)" using assms(1) b(2) by simp
  then have 1: "k < ilog2 a + 1" by (simp only: powi2_less_iff)
  have "(2::rat) powi (ilog2 a) < 2 powi (k + 1)" using assms(2) b(1) by simp
  then have 2: "ilog2 a < k + 1" by (simp only: powi2_less_iff)
  from 1 2 show ?thesis by simp
qed


lemma round_half_even_of_int: "round_half_even (of_int k) = k"
  by (simp add: round_half_even_def)

lemma round64_exact:
  assumes m: "m \<noteq> 0" "\<bar>m\<bar> < 2 ^ 53" and e: "- 1074 \<le> e"
    and r: "of_int \<bar>m\<bar> * 2 powi e < (2::rat) ^ 1024"
  shows "round64 (of_int m * 2 powi e) = Fin (of_int m * 2 powi e)"
proof -
  define q :: rat where "q = of_int m * 2 powi e"
  define a where "a = \<bar>q\<bar>"
  have a: "a = of_int \<bar>m\<bar> * 2 powi e" by (simp add: a_def q_def abs_mult)
  have apos: "0 < a" using m(1) by (simp add: a)
  have q0: "q \<noteq> 0" using apos by (simp add: a_def)
  define E where "E = max (ilog2 a) (- 1022)"
  have "(of_int \<bar>m\<bar> :: rat) < of_int (2 ^ 53)" using m(2) by (simp only: of_int_less_iff)
  then have "a < 2 ^ 53 * 2 powi e" by (simp add: a)
  also have "\<dots> = 2 powi (53 + e)" by (simp add: power_int_add)
  finally have "2 powi (ilog2 a) < (2::rat) powi (53 + e)"
    using ilog2_bounds [OF apos] by simp
  then have "ilog2 a < 53 + e" by (simp only: powi2_less_iff)
  with e have E: "E - 52 \<le> e" by (simp add: E_def)
  define K where "K = \<bar>m\<bar> * 2 ^ nat (e - (E - 52))"
  have "(2::rat) powi (e - (E - 52)) = 2 powi e / 2 powi (E - 52)"
    by (rule power_int_diff) simp
  moreover have "(2::rat) powi (e - (E - 52)) = 2 ^ nat (e - (E - 52))"
    using E by (simp add: power_int_nonneg_exp)
  ultimately have K: "a / 2 powi (E - 52) = of_int K"
    by (simp add: a K_def)
  define V where "V = of_int (round_half_even (a / 2 powi (E - 52))) * (2::rat) powi (E - 52)"
  have v: "V = a"
    unfolding V_def K round_half_even_of_int unfolding K [symmetric] by simp
  have ra: "\<not> 2 ^ 1024 \<le> a" using r by (simp only: a not_le)
  have "round64 q = (if 2 ^ 1024 \<le> V then (if q < 0 then NInf else PInf)
        else if V = 0 then (if q < 0 then NZero else Fin 0)
        else Fin (if q < 0 then - V else V))"
    by (simp only: round64_def Let_def a_def E_def V_def q0 if_False)
  also have "\<dots> = Fin (if q < 0 then - a else a)"
    using apos ra by (simp only: v if_False) simp
  also have "(if q < 0 then - a else a) = q" by (simp add: a_def)
  finally have "round64 q = Fin q" .
  then show ?thesis by (simp add: q_def)
qed

lemma round64_of_int: "\<bar>n\<bar> < 2 ^ 53 \<Longrightarrow> round64 (of_int n) = Fin (of_int n)"
proof (cases "n = 0")
  case True
  then show ?thesis by (simp add: round64_def)
next
  case False
  assume b: "\<bar>n\<bar> < 2 ^ 53"
  then have "(of_int \<bar>n\<bar> :: rat) < of_int (2 ^ 53)" by (simp only: of_int_less_iff)
  also have "\<dots> < 2 ^ 1024" by simp
  finally have "of_int \<bar>n\<bar> * 2 powi 0 < (2::rat) ^ 1024" by simp
  from round64_exact [OF False b _ this] show ?thesis by simp
qed

lemma round64_numeral [simp]:
  "(numeral k :: int) < 9007199254740992 \<Longrightarrow> round64 (numeral k) = Fin (numeral k)"
  using round64_of_int [of "numeral k"] by simp

lemma round64_neg_numeral [simp]:
  "(numeral k :: int) < 9007199254740992 \<Longrightarrow> round64 (- numeral k) = Fin (- numeral k)"
  using round64_of_int [of "- numeral k"] by simp

lemma round64_0 [simp]: "round64 0 = Fin 0"
  by (simp add: round64_def)

lemma round64_1 [simp]: "round64 1 = Fin 1"
  using round64_of_int [of 1] by simp

lemma round64_half [simp]: "round64 (1 / 2) = Fin (1 / 2)"
  using round64_exact [of 1 "- 1"] by simp

text \<open>The integer square root is the floor of the root.\<close>

lemma isqrt_bounds:
  "0 \<le> n \<Longrightarrow> 0 \<le> isqrt n \<and> isqrt n * isqrt n \<le> n \<and> n < (isqrt n + 1) * (isqrt n + 1)"
proof (induction n rule: isqrt.induct)
  case (1 n)
  show ?case
  proof (cases "n < 4")
    case True
    with "1.prems" show ?thesis by (auto simp: isqrt.simps [of n])
  next
    case False
    define s where "s = isqrt (n div 4)"
    from False "1.prems" have "0 \<le> n div 4" by simp
    from "1.IH" [OF False this]
    have s: "0 \<le> s" "s * s \<le> n div 4" "n div 4 < (s + 1) * (s + 1)" by (auto simp: s_def)
    have lo: "(2 * s) * (2 * s) \<le> n" using s(2) by (simp add: algebra_simps)
    have "n div 4 + 1 \<le> (s + 1) * (s + 1)" using s(3) by simp
    then have "4 * (n div 4) + 4 \<le> (2 * s + 2) * (2 * s + 2)" by (simp add: algebra_simps)
    then have hi: "n < (2 * s + 2) * (2 * s + 2)" by linarith
    have unf: "isqrt n = (if (2 * s + 1) * (2 * s + 1) \<le> n then 2 * s + 1 else 2 * s)"
      using False by (simp add: isqrt.simps [of n] s_def Let_def)
    show ?thesis
    proof (cases "(2 * s + 1) * (2 * s + 1) \<le> n")
      case True
      with unf s(1) hi show ?thesis by (simp add: algebra_simps)
    next
      case False
      with unf s(1) lo show ?thesis by (simp add: algebra_simps)
    qed
  qed
qed

lemma isqrt_unique:
  assumes "0 \<le> k" "k * k \<le> n" "n < (k + 1) * (k + 1)"
  shows "isqrt n = k"
proof -
  have n: "0 \<le> n" using assms(1,2) by (meson mult_nonneg_nonneg order_trans)
  from isqrt_bounds [OF n] have b: "0 \<le> isqrt n" "isqrt n * isqrt n \<le> n"
    "n < (isqrt n + 1) * (isqrt n + 1)" by auto
  have "\<not> isqrt n < k"
  proof
    assume "isqrt n < k"
    then have "isqrt n + 1 \<le> k" by simp
    then have "(isqrt n + 1) * (isqrt n + 1) \<le> k * k" using b(1) by (intro mult_mono) auto
    with b(3) assms(2) show False by linarith
  qed
  moreover have "\<not> k < isqrt n"
  proof
    assume "k < isqrt n"
    then have "k + 1 \<le> isqrt n" by simp
    then have "(k + 1) * (k + 1) \<le> isqrt n * isqrt n" using assms(1) by (intro mult_mono) auto
    with b(2) assms(3) show False by linarith
  qed
  ultimately show ?thesis by simp
qed

lemma ilog2_9: "ilog2 9 = 3"
  by (rule ilog2_unique) simp_all

lemma sqrt64_9: "sqrt64 9 = Fin 3"
proof -
  have "isqrt (9 * 2 ^ 102) = 3 * 2 ^ 51"
    by (rule isqrt_unique) simp_all
  then show ?thesis
    by (simp add: sqrt64_def ilog2_9 Let_def power_int_minus)
qed

text \<open>The definitions that evaluate a concrete input.\<close>

lemmas char_class_defs = isWhite_def isDigit_def isNumChar_def isOperator_def isLetter_def
  isLetterOrDigit_def

lemmas number_text_defs = js_Number_def trim_def radix_literal_def unsigned_decimal_def
  dec_mantissa_def dec_exponent_def digits_val_def digit_val_def isRadixDigit_def

lemmas arith_defs = js_add_def js_sub_def js_mul_def js_div_def js_pow_def js_isInf_def
  js_isZero_def is_int_def

lemmas parser_defs = tokenize_def unary_def toRPN_def precedence_def isRightAssoc_def
  evalRPN_def evaluateExpression_def callFunc_def



subsection \<open>Blank input\<close>

lemma trim_Nil_iff: "trim s = [] \<longleftrightarrow> (\<forall>c\<in>set s. isWhite c)"
proof -
  have "set s = set (takeWhile isWhite s) \<union> set (dropWhile isWhite s)"
    by (metis set_append takeWhile_dropWhile_id)
  moreover have "\<forall>c\<in>set (takeWhile isWhite s). isWhite c"
    by (auto dest: set_takeWhileD)
  ultimately have "(\<forall>c\<in>set (dropWhile isWhite s). isWhite c) \<longleftrightarrow> (\<forall>c\<in>set s. isWhite c)"
    by auto
  then show ?thesis by (simp add: trim_def)
qed

lemma tokenize_from_white: "\<forall>c\<in>set s. isWhite c \<Longrightarrow> tokenize_from ts s = Inr ts"
  by (induction s) auto

text \<open>
  Claim C10.  For an input that is empty or consists of white space only,
  \<open>evaluateExpression\<close> returns the number 0 and raises nothing: the guard at the head of
  the function answers before the tokenizer, the converter and the evaluator run.  Without
  the guard the pipeline would fail: such an input has no tokens, the conversion of no
  tokens is the empty RPN sequence, and \<open>evalRPN\<close> of the empty sequence throws
  "Invalid expression" (the spec's MalformedExpressionError).
\<close>

theorem evaluateExpression_blank:
  assumes "s = [] \<or> (\<forall>c\<in>set s. isWhite c)"
  shows "evaluateExpression pw s = Inr (Fin 0)
         \<and> tokenize s = Inr [] \<and> toRPN [] = Inr [] \<and> evalRPN pw [] = Inl InvalidExpression"
proof -
  from assms have w: "\<forall>c\<in>set s. isWhite c" by auto
  then have "trim s = []" by (simp add: trim_Nil_iff)
  then have "evaluateExpression pw s = Inr (Fin 0)" by (simp add: evaluateExpression_def)
  moreover have "tokenize s = Inr []" using w by (simp add: tokenize_def tokenize_from_white)
  moreover have "toRPN [] = Inr []" by (simp add: toRPN_def)
  moreover have "evalRPN pw [] = Inl InvalidExpression" by (simp add: evalRPN_def)
  ultimately show ?thesis by simp
qed

theorem evaluateExpression_blank_witness:
  "(\<forall>pw. evaluateExpression pw [CHR '' '', CHR 0x09] = Inr (Fin 0))
   \<and> tokenize [CHR '' '', CHR 0x09] = Inr []"
  using evaluateExpression_blank [of "[CHR '' '', CHR 0x09]"] by (simp add: isWhite_def)

subsection \<open>The final stack of the evaluator\<close>

text \<open>
  Claim C7.  When the loop of \<open>evalRPN\<close> has consumed all tokens, the call returns a value
  exactly when the value stack holds exactly one value, and that value is the result; with
  any other number of values on the final stack (none, or two or more) it throws
  "Invalid expression" (the spec's MalformedExpressionError).  The empty sequence and a
  sequence of two numbers are instances.
\<close>

theorem evalRPN_final_stack:
  "(evalRPN pw rpn = Inr v \<longleftrightarrow> evalRPN_loop pw rpn [] = Inr [v])
   \<and> (evalRPN_loop pw rpn [] = Inr st \<and> length st \<noteq> 1 \<longrightarrow> evalRPN pw rpn = Inl InvalidExpression)
   \<and> evalRPN pw [] = Inl InvalidExpression
   \<and> evalRPN pw [Num ''1'', Num ''2''] = Inl InvalidExpression"
proof -
  have "evalRPN pw rpn = Inr v \<longleftrightarrow> evalRPN_loop pw rpn [] = Inr [v]"
  proof (cases "evalRPN_loop pw rpn []")
    case (Inr st)
    then show ?thesis
      by (cases st; cases "tl st") (auto simp: evalRPN_def)
  qed (simp add: evalRPN_def)
  then show ?thesis by (simp add: evalRPN_def)
qed

theorem evalRPN_final_stack_witness:
  "\<forall>pw. evalRPN_loop pw [Num ''1'', Num ''2''] [] = Inr [js_Number ''2'', js_Number ''1'']
     \<and> length [js_Number ''2'', js_Number ''1''] \<noteq> 1
     \<and> evalRPN pw [Num ''1'', Num ''2''] = Inl InvalidExpression"
  using evalRPN_final_stack [of _ "[Num ''1'', Num ''2'']" _ "[js_Number ''2'', js_Number ''1'']"]
  by simp

subsection \<open>The loops continue after a prefix\<close>

lemma toRPN_loop_append:
  "toRPN_loop (xs @ ys) st =
     (case toRPN_loop xs st of Inl e \<Rightarrow> Inl e | Inr st' \<Rightarrow> toRPN_loop ys st')"
  by (induction xs arbitrary: st) (auto split: sum.splits)

lemma evalRPN_loop_append:
  "evalRPN_loop pw (xs @ ys) st =
     (case evalRPN_loop pw xs st of Inl e \<Rightarrow> Inl e | Inr st' \<Rightarrow> evalRPN_loop pw ys st')"
  by (induction xs arbitrary: st) (auto split: sum.splits)

subsection \<open>Percent\<close>

text \<open>
  Claim C3.  For a \<open>Percent\<close> token the converter appends the token and then a synthetic
  operator \<open>%\<close> to the output and leaves the operator stack as it is, wherever the token
  stands in the input.  The evaluator skips the \<open>Percent\<close> token; at the operator \<open>%\<close> it
  throws "Invalid percent" (the spec's StackUnderflowError) when the value stack is empty,
  and otherwise pops one value \<open>a\<close> and pushes \<open>a / 100\<close>.  So \<open>50%\<close> evaluates to 0.5.
\<close>

theorem percent_postfix:
  "toRPN_step Percent (out, ops) = Inr (out @ [Percent, Op (CHR ''%'')], ops)
   \<and> toRPN_loop (xs @ Percent # ys) st =
       (case toRPN_loop xs st of
          Inl e \<Rightarrow> Inl e
        | Inr (out', ops') \<Rightarrow> toRPN_loop ys (out' @ [Percent, Op (CHR ''%'')], ops'))
   \<and> evalRPN_step pw Percent vs = Inr vs
   \<and> evalRPN_step pw (Op (CHR ''%'')) [] = Inl InvalidPercent
   \<and> evalRPN_step pw (Op (CHR ''%'')) (a # vs) = Inr (js_div a (Fin 100) # vs)
   \<and> tokenize ''50%'' = Inr [Num ''50'', Percent]
   \<and> toRPN [Num ''50'', Percent] = Inr [Num ''50'', Percent, Op (CHR ''%'')]
   \<and> evaluateExpression pw ''50%'' = Inr (Fin (1 / 2))"
proof -
  have "toRPN_loop (xs @ Percent # ys) st =
       (case toRPN_loop xs st of
          Inl e \<Rightarrow> Inl e
        | Inr (out', ops') \<Rightarrow> toRPN_loop ys (out' @ [Percent, Op (CHR ''%'')], ops'))"
    by (simp add: toRPN_loop_append split: sum.splits prod.splits)
  moreover have "tokenize ''50%'' = Inr [Num ''50'', Percent]"
    by (simp add: parser_defs char_class_defs)
  moreover have "evaluateExpression pw ''50%'' = Inr (Fin (1 / 2))"
    by (simp add: parser_defs char_class_defs number_text_defs arith_defs)
  ultimately show ?thesis by (simp add: toRPN_def)
qed

subsection \<open>Division\<close>

text \<open>
  Claim C4.  At a division the evaluator pops the divisor \<open>b\<close> and the dividend \<open>a\<close>; when
  \<open>b\<close> is zero (\<open>b === 0\<close>, which holds of both zeros) it throws "Divide by zero" (the
  spec's DivideByZeroError), and then the whole evaluation fails with it, whatever follows;
  otherwise it pushes \<open>a / b\<close>.  The quotient by a zero would not be finite (an infinity or
  NaN); it is never produced.  So \<open>5/0\<close> fails with "Divide by zero".
\<close>

theorem division_by_zero:
  "evalRPN_step pw (Op (CHR ''/'')) (b # a # vs) =
     (if js_isZero b then Inl DivideByZero else Inr (js_div a b # vs))
   \<and> (evalRPN_loop pw xs [] = Inr (b # a # vs) \<and> js_isZero b
        \<longrightarrow> evalRPN pw (xs @ Op (CHR ''/'') # ys) = Inl DivideByZero)
   \<and> (js_isZero b \<longrightarrow> \<not> js_isFinite (js_div a b))
   \<and> evaluateExpression pw ''5/0'' = Inl DivideByZero"
proof -
  have "evalRPN pw (xs @ Op (CHR ''/'') # ys) = Inl DivideByZero"
    if "evalRPN_loop pw xs [] = Inr (b # a # vs)" "js_isZero b"
    using that by (simp add: evalRPN_def evalRPN_loop_append)
  moreover have "\<not> js_isFinite (js_div a b)" if "js_isZero b"
    using that
    by (cases a) (auto simp: js_div_def js_isFinite_def js_isZero_def js_isInf_def
        signed_inf_def split: if_splits)
  moreover have "evaluateExpression pw ''5/0'' = Inl DivideByZero"
    by (simp add: parser_defs char_class_defs number_text_defs arith_defs)
  ultimately show ?thesis by simp
qed

theorem division_by_zero_witness:
  "evalRPN_loop sample_host [Num ''5'', Num ''0''] [] = Inr [Fin 0, Fin 5]
   \<and> js_isZero (Fin 0)
   \<and> evalRPN sample_host [Num ''5'', Num ''0'', Op (CHR ''/'')] = Inl DivideByZero
   \<and> js_div (Fin 5) (Fin 0) = PInf"
proof -
  have l: "evalRPN_loop sample_host [Num ''5'', Num ''0''] [] = Inr [Fin 0, Fin 5]"
    by (simp add: number_text_defs char_class_defs)
  have z: "js_isZero (Fin 0)" by (simp add: js_isZero_def)
  from division_by_zero [of sample_host "Fin 0" "Fin 5" "[]" "[Num ''5'', Num ''0'']" "[]"] l z
  have "evalRPN sample_host [Num ''5'', Num ''0'', Op (CHR ''/'')] = Inl DivideByZero"
    by simp
  moreover have "js_div (Fin 5) (Fin 0) = PInf"
    by (simp add: js_div_def js_isInf_def js_isZero_def signed_inf_def)
  ultimately show ?thesis using l z by simp
qed

subsection \<open>Functions\<close>

text \<open>
  Claim C6.  At a \<open>Function\<close> token the evaluator first looks at the value stack: when it
  is empty it throws "Func missing arg" (the spec's FunctionArgMissingError), whatever the
  name.  Otherwise it pops one value and looks the name up: any name but \<open>sqrt\<close> throws
  "Unknown function: name" (the spec's UnknownFunctionError), and for \<open>sqrt\<close> the square
  root of the value is pushed.  So \<open>sqrt(9)\<close> evaluates to 3.
\<close>

theorem function_call:
  "evalRPN_step pw (Func name) [] = Inl FuncMissingArg
   \<and> (name \<noteq> ''sqrt'' \<longrightarrow> evalRPN_step pw (Func name) (a # vs) = Inl (UnknownFunction name))
   \<and> evalRPN_step pw (Func ''sqrt'') (a # vs) = Inr (js_sqrt a # vs)
   \<and> callFunc name [a] = (if name = ''sqrt'' then Inr (js_sqrt a) else Inl (UnknownFunction name))
   \<and> tokenize ''sqrt(9)'' = Inr [Func ''sqrt'', LParen, Num ''9'', RParen]
   \<and> toRPN [Func ''sqrt'', LParen, Num ''9'', RParen] = Inr [Num ''9'', Func ''sqrt'']
   \<and> evaluateExpression pw ''sqrt(9)'' = Inr (Fin 3)"
proof -
  have "tokenize ''sqrt(9)'' = Inr [Func ''sqrt'', LParen, Num ''9'', RParen]"
    by (simp add: parser_defs char_class_defs)
  moreover have "evaluateExpression pw ''sqrt(9)'' = Inr (Fin 3)"
    by (simp add: parser_defs char_class_defs number_text_defs arith_defs sqrt64_9)
  ultimately show ?thesis by (simp add: callFunc_def toRPN_def)
qed

theorem function_call_witness:
  "''cos'' \<noteq> ''sqrt''
   \<and> evalRPN_step sample_host (Func ''cos'') [Fin 1] = Inl (UnknownFunction ''cos'')
   \<and> evalRPN_step sample_host (Func ''cos'') [] = Inl FuncMissingArg
   \<and> evaluateExpression sample_host ''cos(1)'' = Inl (UnknownFunction ''cos'')"
proof -
  have "evaluateExpression sample_host ''cos(1)'' = Inl (UnknownFunction ''cos'')"
    by (simp add: parser_defs char_class_defs number_text_defs)
  then show ?thesis
    using function_call [of sample_host "''cos''" "Fin 1" "[]"] by simp
qed

subsection \<open>Arithmetic expressions\<close>

text \<open>The evaluator computes the standard value of a parse tree from its postfix form.\<close>

lemma grammar_op:
  "grammar p (Bin l c r) \<Longrightarrow> c \<in> {CHR ''+'', CHR ''-'', CHR ''*'', CHR ''/'', CHR ''^''}"
  by (auto split: if_splits)

lemma evalRPN_step_op:
  "c \<in> {CHR ''+'', CHR ''-'', CHR ''*'', CHR ''/'', CHR ''^''} \<Longrightarrow>
   evalRPN_step pw (Op c) (b # a # st) =
     (case std_apply pw c a b of Inl e \<Rightarrow> Inl e | Inr v \<Rightarrow> Inr (v # st))"
  by (auto simp: std_apply_def)

lemma evalRPN_loop_postfix:
  "grammar p e \<Longrightarrow>
   evalRPN_loop pw (postfix e @ rest) st =
     (case std_value pw e of Inl err \<Rightarrow> Inl err | Inr v \<Rightarrow> evalRPN_loop pw rest (v # st))"
proof (induction e arbitrary: p rest st)
  case (Lit s)
  show ?case by simp
next
  case (Paren e)
  then show ?case by simp
next
  case (Bin l c r)
  from Bin.prems obtain p1 p2 where g: "grammar p1 l" "grammar p2 r"
    by (auto split: if_splits)
  have c: "c \<in> {CHR ''+'', CHR ''-'', CHR ''*'', CHR ''/'', CHR ''^''}"
    using Bin.prems by (rule grammar_op)
  show ?case
    using Bin.IH(1) [OF g(1), of "postfix r @ [Op c] @ rest" st]
      Bin.IH(2) [OF g(2), of "[Op c] @ rest"] evalRPN_step_op [OF c, of pw]
    by (auto split: sum.splits)
qed

text \<open>
  The converter turns the tokens of a parse tree into its postfix form.  While it reads
  the tokens of a tree of level \<open>p\<close> over a stack whose top is \<open>low\<close> for \<open>p\<close>, it leaves
  that stack as it is and adds the pending operators of the tree on top of it.
\<close>

lemma emitted_pending: "emitted e @ pending e = postfix e"
  by (induction e) auto

lemma precedence_le_3: "precedence d \<le> 3"
  by (simp add: precedence_def)

lemma pops_add: "c = CHR ''+'' \<or> c = CHR ''-'' \<Longrightarrow> pops c d \<longleftrightarrow> 1 \<le> precedence d"
  by (auto simp: pops_def isRightAssoc_def precedence_def)

lemma pops_mul: "c = CHR ''*'' \<or> c = CHR ''/'' \<Longrightarrow> pops c d \<longleftrightarrow> 2 \<le> precedence d"
  by (auto simp: pops_def isRightAssoc_def precedence_def)

lemma pops_pow: "\<not> pops (CHR ''^'') d"
  by (simp add: pops_def isRightAssoc_def precedence_def)

lemma grammar_Bin:
  assumes "grammar p (Bin l c r)"
  obtains "c = CHR ''+'' \<or> c = CHR ''-''" "p \<le> 1" "grammar 1 l" "grammar 2 r"
  | "c = CHR ''*'' \<or> c = CHR ''/''" "p \<le> 2" "grammar 2 l" "grammar 3 r"
  | "c = CHR ''^''" "p \<le> 3" "grammar 4 l" "grammar 3 r"
  using assms by (auto split: if_splits)

lemma pending_prec:
  "grammar p e \<Longrightarrow> t \<in> set (pending e) \<Longrightarrow> \<exists>d. t = Op d \<and> p \<le> precedence d"
proof (induction e arbitrary: p)
  case (Bin l c r)
  have up: "\<exists>d. t = Op d \<and> p \<le> precedence d"
    if "grammar q r" "p \<le> q" "p \<le> precedence c" for q
  proof (cases "t = Op c")
    case True
    with that(3) show ?thesis by simp
  next
    case False
    with Bin.prems(2) have "t \<in> set (pending r)" by simp
    from Bin.IH(2) [OF that(1) this] obtain d where "t = Op d" "q \<le> precedence d" by blast
    with that(2) show ?thesis by auto
  qed
  from Bin.prems(1) show ?case
  proof (cases rule: grammar_Bin)
    case 1
    show ?thesis by (rule up [OF 1(4)]) (use 1 in \<open>auto simp: precedence_def\<close>)
  next
    case 2
    show ?thesis by (rule up [OF 2(4)]) (use 2 in \<open>auto simp: precedence_def\<close>)
  next
    case 3
    show ?thesis by (rule up [OF 3(4)]) (use 3 in \<open>auto simp: precedence_def\<close>)
  qed
qed simp_all

lemma pop_ops_pending:
  assumes "\<forall>t\<in>set P. \<exists>d. t = Op d \<and> pops c d"
    and "\<forall>d tl. ops = Op d # tl \<longrightarrow> \<not> pops c d"
  shows "pop_ops c out (P @ ops) = (out @ P, ops)"
  using assms
proof (induction P arbitrary: out)
  case Nil
  then show ?case by (cases "(c, out, ops)" rule: pop_ops.cases) (auto simp: pops_def)
next
  case (Cons t P)
  then obtain d where "t = Op d" "pops c d" by auto
  with Cons show ?case by (simp add: pops_def)
qed

lemma pop_to_paren_pending:
  "\<forall>t\<in>set P. t \<noteq> LParen \<Longrightarrow> pop_to_paren out (P @ LParen # ops) = (out @ P, LParen # ops)"
  by (induction P arbitrary: out) auto

lemma low_mono: "low p ops \<Longrightarrow> p \<le> q \<Longrightarrow> low q ops"
  by (cases "(p, ops)" rule: low.cases) auto

lemma toRPN_loop_expr:
  "grammar p e \<Longrightarrow> low p ops \<Longrightarrow>
   toRPN_loop (expr_tokens e @ rest) (out, ops) =
     toRPN_loop rest (out @ emitted e, pending e @ ops)"
proof (induction e arbitrary: p out ops rest)
  case (Lit s)
  show ?case by simp
next
  case (Paren e)
  from Paren.prems(1) have g: "grammar 1 e" by simp
  have l: "low 1 (LParen # ops)" by simp
  have np: "\<forall>t\<in>set (pending e). t \<noteq> LParen"
    using pending_prec [OF g] by auto
  have nf: "\<And>f tl. ops \<noteq> Func f # tl" using Paren.prems(2) by auto
  have "toRPN_step RParen (out @ emitted e, pending e @ LParen # ops) = Inr (out @ postfix e, ops)"
    using nf by (cases ops rule: list.exhaust; cases "hd ops")
      (auto simp: pop_to_paren_pending [OF np] emitted_pending)
  then show ?case
    using Paren.IH [OF g l, of "RParen # rest" out] by simp
next
  case (Bin l c r)
  have step: "toRPN_loop (expr_tokens (Bin l c r) @ rest) (out, ops) =
      toRPN_loop rest (out @ emitted (Bin l c r), pending (Bin l c r) @ ops)"
    if gl: "grammar pl l" and gr: "grammar pr r"
      and ll: "low pl ops" and lr: "low pr (Op c # ops)"
      and pp: "\<forall>d. pl \<le> precedence d \<longrightarrow> pops c d"
      and sp: "\<forall>d tl. ops = Op d # tl \<longrightarrow> \<not> pops c d"
    for pl pr
  proof -
    have 1: "toRPN_loop (expr_tokens l @ Op c # expr_tokens r @ rest) (out, ops) =
        toRPN_loop (Op c # expr_tokens r @ rest) (out @ emitted l, pending l @ ops)"
      by (rule Bin.IH(1) [OF gl ll])
    have "\<forall>t\<in>set (pending l). \<exists>d. t = Op d \<and> pops c d"
      using pending_prec [OF gl] pp by blast
    from pop_ops_pending [OF this sp]
    have 2: "toRPN_step (Op c) (out @ emitted l, pending l @ ops) = Inr (out @ postfix l, Op c # ops)"
      by (simp add: emitted_pending)
    have 3: "toRPN_loop (expr_tokens r @ rest) (out @ postfix l, Op c # ops) =
        toRPN_loop rest (out @ postfix l @ emitted r, pending r @ Op c # ops)"
      using Bin.IH(2) [OF gr lr, of rest "out @ postfix l"] by simp
    show ?thesis using 1 2 3 by simp
  qed
  have stop: "precedence d < p \<or> 2 < p" if "ops = Op d # tl" for d tl
    using Bin.prems(2) that by auto
  from Bin.prems(1) show ?case
  proof (cases rule: grammar_Bin)
    case 1
    show ?thesis
    proof (rule step [OF 1(3) 1(4)])
      show "low 1 ops" using Bin.prems(2) 1(2) by (rule low_mono)
      show "low 2 (Op c # ops)" using 1(1) by (auto simp: precedence_def)
      show "\<forall>d. 1 \<le> precedence d \<longrightarrow> pops c d" by (simp add: pops_add [OF 1(1)])
      show "\<forall>d tl. ops = Op d # tl \<longrightarrow> \<not> pops c d"
      proof (intro allI impI)
        fix d tl assume "ops = Op d # tl"
        from stop [OF this] 1(2) show "\<not> pops c d" by (simp add: pops_add [OF 1(1)])
      qed
    qed
  next
    case 2
    show ?thesis
    proof (rule step [OF 2(3) 2(4)])
      show "low 2 ops" using Bin.prems(2) 2(2) by (rule low_mono)
      show "low 3 (Op c # ops)" by simp
      show "\<forall>d. 2 \<le> precedence d \<longrightarrow> pops c d" by (simp add: pops_mul [OF 2(1)])
      show "\<forall>d tl. ops = Op d # tl \<longrightarrow> \<not> pops c d"
      proof (intro allI impI)
        fix d tl assume "ops = Op d # tl"
        from stop [OF this] 2(2) show "\<not> pops c d" by (simp add: pops_mul [OF 2(1)])
      qed
    qed
  next
    case 3
    show ?thesis
    proof (rule step [OF 3(3) 3(4)])
      show "low 4 ops" using Bin.prems(2) by (cases "(p, ops)" rule: low.cases) auto
      show "low 3 (Op c # ops)" by simp
      show "\<forall>d. 4 \<le> precedence d \<longrightarrow> pops c d"
      proof (intro allI impI)
        fix d assume "4 \<le> precedence d"
        with precedence_le_3 [of d] show "pops c d" by simp
      qed
      show "\<forall>d tl. ops = Op d # tl \<longrightarrow> \<not> pops c d" by (simp add: 3(1) pops_pow)
    qed
  qed
qed

text \<open>The tokenizer reads the text of a parse tree as the tokens of the tree.\<close>

lemma drain_ops: "\<forall>t\<in>set P. isOp t \<Longrightarrow> drain out P = Inr (out @ P)"
  by (induction P arbitrary: out) auto

lemma toRPN_expr: "grammar p e \<Longrightarrow> toRPN (expr_tokens e) = Inr (postfix e)"
proof -
  assume g: "grammar p e"
  have "\<forall>t\<in>set (pending e). isOp t" using pending_prec [OF g] by fastforce
  then have "drain (emitted e) (pending e) = Inr (emitted e @ pending e)" by (rule drain_ops)
  moreover have "toRPN_loop (expr_tokens e) ([], []) = Inr (emitted e, pending e)"
    using toRPN_loop_expr [OF g, of "[]" "[]" "[]"] by simp
  ultimately show ?thesis by (simp add: toRPN_def emitted_pending)
qed

lemma evalRPN_postfix: "grammar p e \<Longrightarrow> evalRPN pw (postfix e) = std_value pw e"
  using evalRPN_loop_postfix [of p e pw "[]" "[]"]
  by (auto simp: evalRPN_def split: sum.splits)

lemma takeWhile_run:
  "\<forall>x\<in>set xs. P x \<Longrightarrow> ys = [] \<or> \<not> P (hd ys) \<Longrightarrow> takeWhile P (xs @ ys) = xs"
  by (induction xs) (auto simp: takeWhile_eq_Nil_iff)

lemma dropWhile_run:
  "\<forall>x\<in>set xs. P x \<Longrightarrow> ys = [] \<or> \<not> P (hd ys) \<Longrightarrow> dropWhile P (xs @ ys) = ys"
  by (induction xs) (auto simp: dropWhile_eq_self_iff)

lemma isNumChar_not_white: "isNumChar c \<Longrightarrow> \<not> isWhite c"
  by (auto simp: isNumChar_def isDigit_def isWhite_def)

lemma tokenize_from_literal:
  assumes "s \<noteq> []" "list_all isNumChar s" "rest = [] \<or> \<not> isNumChar (hd rest)"
  shows "tokenize_from acc (s @ rest) = tokenize_from (acc @ [Num s]) rest"
proof -
  from assms(1) obtain c cs where s: "s = c # cs" by (cases s) auto
  with assms(2) have c: "isNumChar c" and all: "\<forall>x\<in>set s. isNumChar x"
    by (auto simp: list_all_iff)
  have t: "takeWhile isNumChar (s @ rest) = s"
    by (rule takeWhile_run [OF all assms(3)])
  have d: "dropWhile isNumChar (s @ rest) = rest"
    by (rule dropWhile_run [OF all assms(3)])
  have "tokenize_from acc (c # (cs @ rest)) =
      tokenize_from (acc @ [Num (takeWhile isNumChar (c # (cs @ rest)))])
        (dropWhile isNumChar (c # (cs @ rest)))"
    using c isNumChar_not_white [OF c] by (simp add: isNumChar_def)
  with t d show ?thesis by (simp add: s)
qed

lemma last_expr_tokens:
  "expr_tokens e \<noteq> [] \<and> (last (expr_tokens e) = RParen \<or> (\<exists>s. last (expr_tokens e) = Num s))"
  by (induction e) auto

lemma not_unary_after_expr: "\<not> unary c (acc @ expr_tokens e)"
  using last_expr_tokens [of e] by (auto simp: unary_def)

lemma tokenize_from_operator:
  assumes "c = CHR ''+'' \<or> c = CHR ''-'' \<or> c = CHR ''*'' \<or> c = CHR ''/'' \<or> c = CHR ''^''"
  shows "tokenize_from acc (c # rest) =
     tokenize_from (acc @ (if unary c acc then [Num ''0''] else []) @ [Op c]) rest"
  using assms by (elim disjE) (simp_all add: char_class_defs)

lemma tokenize_from_expr:
  "grammar p e \<Longrightarrow> rest = [] \<or> \<not> isNumChar (hd rest) \<Longrightarrow>
   tokenize_from acc (render e @ rest) = tokenize_from (acc @ expr_tokens e) rest"
proof (induction e arbitrary: p acc rest)
  case (Lit s)
  then show ?case by (simp add: tokenize_from_literal)
next
  case (Paren e)
  from Paren.prems(1) have g: "grammar 1 e" by simp
  have "tokenize_from acc (CHR ''('' # render e @ CHR '')'' # rest) =
      tokenize_from (acc @ [LParen]) (render e @ CHR '')'' # rest)"
    by (simp add: char_class_defs)
  also have "\<dots> = tokenize_from ((acc @ [LParen]) @ expr_tokens e) (CHR '')'' # rest)"
    by (rule Paren.IH [OF g]) (simp add: char_class_defs)
  also have "\<dots> = tokenize_from (acc @ [LParen] @ expr_tokens e @ [RParen]) rest"
    by (simp add: char_class_defs)
  finally show ?case by simp
next
  case (Bin l c r)
  from Bin.prems(1) obtain pl pr where g: "grammar pl l" "grammar pr r"
    and c: "c = CHR ''+'' \<or> c = CHR ''-'' \<or> c = CHR ''*'' \<or> c = CHR ''/'' \<or> c = CHR ''^''"
    by (cases rule: grammar_Bin) auto
  from c have nc: "\<not> isNumChar c" by (auto simp: char_class_defs)
  have "tokenize_from acc (render l @ c # render r @ rest) =
      tokenize_from (acc @ expr_tokens l) (c # render r @ rest)"
    by (rule Bin.IH(1) [OF g(1)]) (simp add: nc)
  also have "\<dots> = tokenize_from (acc @ expr_tokens l @ [Op c]) (render r @ rest)"
    using tokenize_from_operator [OF c, of "acc @ expr_tokens l"] not_unary_after_expr [of c acc l]
    by simp
  also have "\<dots> = tokenize_from ((acc @ expr_tokens l @ [Op c]) @ expr_tokens r) rest"
    by (rule Bin.IH(2) [OF g(2) Bin.prems(2)])
  finally show ?case by simp
qed

lemma tokenize_expr: "grammar p e \<Longrightarrow> tokenize (render e) = Inr (expr_tokens e)"
  using tokenize_from_expr [of p e "[]" "[]"] by (simp add: tokenize_def)

lemma render_not_blank: "grammar p e \<Longrightarrow> render e \<noteq> [] \<and> \<not> isWhite (hd (render e))"
proof (induction e arbitrary: p)
  case (Lit s)
  then show ?case by (cases s) (auto simp: isNumChar_not_white)
next
  case (Paren e)
  show ?case by (simp add: char_class_defs)
next
  case (Bin l c r)
  from Bin.prems obtain pl where "grammar pl l" by (cases rule: grammar_Bin) auto
  from Bin.IH(1) [OF this] show ?case by simp
qed

lemma evaluateExpression_expr:
  assumes "grammar p e"
  shows "evaluateExpression pw (render e) = std_value pw e"
proof -
  from render_not_blank [OF assms] have "render e \<noteq> []" "trim (render e) \<noteq> []"
    by (auto simp: trim_Nil_iff)
  then show ?thesis
    by (simp add: evaluateExpression_def tokenize_expr [OF assms] toRPN_expr [OF assms]
        evalRPN_postfix [OF assms])
qed

text \<open>
  Claim C1.  For every arithmetic expression built from number literals, the binary
  operators \<open>+ - * / ^\<close> and parentheses, that is for the text \<open>render e\<close> of every parse
  tree \<open>e\<close> of the standard grammar (precedence 1 for \<open>+ -\<close>, 2 for \<open>* /\<close>, 3 for \<open>^\<close>;
  \<open>^\<close> grouped from the right, the others from the left), \<open>evaluateExpression\<close> returns
  the standard value of the tree: the tokenizer yields the tokens of the tree, the
  converter its postfix form, and the evaluator the value.  In particular \<open>2+3*4\<close> is 14,
  \<open>2^3^2\<close> is 512 and \<open>8-3-2\<close> is 3.
\<close>

theorem evaluateExpression_standard:
  "(grammar 1 e \<longrightarrow>
      tokenize (render e) = Inr (expr_tokens e)
      \<and> toRPN (expr_tokens e) = Inr (postfix e)
      \<and> evalRPN pw (postfix e) = std_value pw e
      \<and> evaluateExpression pw (render e) = std_value pw e)
   \<and> evaluateExpression pw ''2+3*4'' = Inr (Fin 14)
   \<and> evaluateExpression pw ''2^3^2'' = Inr (Fin 512)
   \<and> evaluateExpression pw ''8-3-2'' = Inr (Fin 3)"
proof -
  have "evaluateExpression pw ''2+3*4'' = Inr (Fin 14)"
    by (simp add: parser_defs char_class_defs number_text_defs arith_defs)
  moreover have "evaluateExpression pw ''2^3^2'' = Inr (Fin 512)"
    by (simp add: parser_defs char_class_defs number_text_defs arith_defs)
  moreover have "evaluateExpression pw ''8-3-2'' = Inr (Fin 3)"
    by (simp add: parser_defs char_class_defs number_text_defs arith_defs)
  ultimately show ?thesis
    by (simp add: tokenize_expr toRPN_expr evalRPN_postfix evaluateExpression_expr)
qed

text \<open>
  The three instances as parse trees: the product below the sum, the power grouped from
  the right and the difference grouped from the left.  The tree that groups \<open>2^3^2\<close> from
  the left is no parse tree of the grammar; its value would be 64.
\<close>

theorem evaluateExpression_standard_witness:
  "grammar 1 (Bin (Lit ''2'') (CHR ''+'') (Bin (Lit ''3'') (CHR ''*'') (Lit ''4'')))
   \<and> evaluateExpression sample_host ''2+3*4''
       = std_value sample_host (Bin (Lit ''2'') (CHR ''+'') (Bin (Lit ''3'') (CHR ''*'') (Lit ''4'')))
   \<and> std_value sample_host (Bin (Lit ''2'') (CHR ''+'') (Bin (Lit ''3'') (CHR ''*'') (Lit ''4'')))
       = Inr (Fin 14)
   \<and> grammar 1 (Bin (Lit ''2'') (CHR ''^'') (Bin (Lit ''3'') (CHR ''^'') (Lit ''2'')))
   \<and> evaluateExpression sample_host ''2^3^2''
       = std_value sample_host (Bin (Lit ''2'') (CHR ''^'') (Bin (Lit ''3'') (CHR ''^'') (Lit ''2'')))
   \<and> std_value sample_host (Bin (Lit ''2'') (CHR ''^'') (Bin (Lit ''3'') (CHR ''^'') (Lit ''2'')))
       = Inr (Fin 512)
   \<and> \<not> grammar 1 (Bin (Bin (Lit ''2'') (CHR ''^'') (Lit ''3'')) (CHR ''^'') (Lit ''2''))
   \<and> std_value sample_host (Bin (Bin (Lit ''2'') (CHR ''^'') (Lit ''3'')) (CHR ''^'') (Lit ''2''))
       = Inr (Fin 64)
   \<and> grammar 1 (Bin (Bin (Lit ''8'') (CHR ''-'') (Lit ''3'')) (CHR ''-'') (Lit ''2''))
   \<and> evaluateExpression sample_host ''8-3-2''
       = std_value sample_host (Bin (Bin (Lit ''8'') (CHR ''-'') (Lit ''3'')) (CHR ''-'') (Lit ''2''))
   \<and> std_value sample_host (Bin (Bin (Lit ''8'') (CHR ''-'') (Lit ''3'')) (CHR ''-'') (Lit ''2''))
       = Inr (Fin 3)"
proof -
  have g: "grammar 1 (Bin (Lit ''2'') (CHR ''+'') (Bin (Lit ''3'') (CHR ''*'') (Lit ''4'')))"
    "grammar 1 (Bin (Lit ''2'') (CHR ''^'') (Bin (Lit ''3'') (CHR ''^'') (Lit ''2'')))"
    "grammar 1 (Bin (Bin (Lit ''8'') (CHR ''-'') (Lit ''3'')) (CHR ''-'') (Lit ''2''))"
    "\<not> grammar 1 (Bin (Bin (Lit ''2'') (CHR ''^'') (Lit ''3'')) (CHR ''^'') (Lit ''2''))"
    by (simp_all add: char_class_defs)
  have v: "std_value sample_host (Bin (Lit ''2'') (CHR ''+'') (Bin (Lit ''3'') (CHR ''*'') (Lit ''4'')))
       = Inr (Fin 14)"
    "std_value sample_host (Bin (Lit ''2'') (CHR ''^'') (Bin (Lit ''3'') (CHR ''^'') (Lit ''2'')))
       = Inr (Fin 512)"
    "std_value sample_host (Bin (Bin (Lit ''2'') (CHR ''^'') (Lit ''3'')) (CHR ''^'') (Lit ''2''))
       = Inr (Fin 64)"
    "std_value sample_host (Bin (Bin (Lit ''8'') (CHR ''-'') (Lit ''3'')) (CHR ''-'') (Lit ''2''))
       = Inr (Fin 3)"
    by (simp_all add: std_apply_def char_class_defs number_text_defs arith_defs)
  show ?thesis
    using g v
      evaluateExpression_standard [of "Bin (Lit ''2'') (CHR ''+'') (Bin (Lit ''3'') (CHR ''*'') (Lit ''4''))" sample_host]
      evaluateExpression_standard [of "Bin (Lit ''2'') (CHR ''^'') (Bin (Lit ''3'') (CHR ''^'') (Lit ''2''))" sample_host]
      evaluateExpression_standard [of "Bin (Bin (Lit ''8'') (CHR ''-'') (Lit ''3'')) (CHR ''-'') (Lit ''2'')" sample_host]
    by simp
qed

subsection \<open>Parentheses\<close>

text \<open>
  The number of open parentheses on the operator stack is the nesting depth of the tokens
  read so far; a closing parenthesis never gets onto the stack.
\<close>

lemma pop_ops_parens:
  "pop_ops c out ops = (out', ops') \<Longrightarrow>
   count_list ops' LParen = count_list ops LParen \<and> set ops' \<subseteq> set ops"
proof (induction c out ops arbitrary: out' ops' rule: pop_ops.induct)
  case (2 c out d ops)
  then show ?case by (auto split: if_splits)
qed auto

lemma pop_to_paren_parens:
  "pop_to_paren out ops = (out', ops') \<Longrightarrow>
   (ops' = [] \<and> count_list ops LParen = 0)
   \<or> (\<exists>ops2. ops' = LParen # ops2 \<and> count_list ops LParen = Suc (count_list ops2 LParen)
        \<and> set ops2 \<subseteq> set ops)"
proof (induction out ops arbitrary: out' ops' rule: pop_to_paren.induct)
  case (2 out tp ops)
  show ?case
  proof (cases "tp = LParen")
    case True
    with 2 show ?thesis by auto
  next
    case False
    with 2 show ?thesis by fastforce
  qed
qed simp

lemma toRPN_step_parens:
  assumes "RParen \<notin> set ops"
  shows "case toRPN_step t (out, ops) of
           Inl e \<Rightarrow> e = MismatchedParentheses \<and> paren_depth (count_list ops LParen) [t] = None
         | Inr (out', ops') \<Rightarrow>
             paren_depth (count_list ops LParen) [t] = Some (count_list ops' LParen)
             \<and> RParen \<notin> set ops'"
proof (cases t)
  case (Op c)
  obtain out' ops' where p: "pop_ops c out ops = (out', ops')" by (cases "pop_ops c out ops")
  from pop_ops_parens [OF p] assms Op p show ?thesis by auto
next
  case RParen
  obtain out' ops' where p: "pop_to_paren out ops = (out', ops')"
    by (cases "pop_to_paren out ops")
  from pop_to_paren_parens [OF p] show ?thesis
  proof
    assume "ops' = [] \<and> count_list ops LParen = 0"
    with RParen p show ?thesis by simp
  next
    assume "\<exists>ops2. ops' = LParen # ops2 \<and> count_list ops LParen = Suc (count_list ops2 LParen)
        \<and> set ops2 \<subseteq> set ops"
    then obtain ops2 where o: "ops' = LParen # ops2"
      "count_list ops LParen = Suc (count_list ops2 LParen)" "set ops2 \<subseteq> set ops" by blast
    show ?thesis
    proof (cases ops2)
      case Nil
      with RParen p o show ?thesis by simp
    next
      case (Cons x xs)
      with RParen p o assms show ?thesis by (cases x) auto
    qed
  qed
qed (use assms in auto)

lemma paren_depth_append:
  "paren_depth d (xs @ ys) = (case paren_depth d xs of None \<Rightarrow> None | Some d' \<Rightarrow> paren_depth d' ys)"
  by (induction d xs rule: paren_depth.induct) (auto split: nat.splits)

lemma toRPN_loop_parens:
  "RParen \<notin> set ops \<Longrightarrow>
   (case toRPN_loop ts (out, ops) of
      Inl e \<Rightarrow> e = MismatchedParentheses \<and> paren_depth (count_list ops LParen) ts = None
    | Inr (out', ops') \<Rightarrow>
        paren_depth (count_list ops LParen) ts = Some (count_list ops' LParen)
        \<and> RParen \<notin> set ops')"
proof (induction ts arbitrary: out ops)
  case Nil
  then show ?case by simp
next
  case (Cons t ts)
  have pd: "paren_depth d (t # ts) =
      (case paren_depth d [t] of None \<Rightarrow> None | Some d' \<Rightarrow> paren_depth d' ts)" for d
    using paren_depth_append [of d "[t]" ts] by simp
  show ?case
  proof (cases "toRPN_step t (out, ops)")
    case (Inl e)
    with toRPN_step_parens [OF Cons.prems, of t out] show ?thesis by (simp add: pd)
  next
    case (Inr st)
    obtain out1 ops1 where st: "st = (out1, ops1)" by (cases st)
    from toRPN_step_parens [OF Cons.prems, of t out] Inr st
    have 1: "paren_depth (count_list ops LParen) [t] = Some (count_list ops1 LParen)"
      and 2: "RParen \<notin> set ops1" by auto
    from Cons.IH [OF 2, of out1] Inr st 1 show ?thesis
      by (auto simp: pd split: sum.splits prod.splits)
  qed
qed

lemma drain_parens:
  "RParen \<notin> set ops \<Longrightarrow>
   drain out ops = (if count_list ops LParen = 0 then Inr (out @ ops) else Inl MismatchedParentheses)"
  by (induction ops arbitrary: out) auto

lemma toRPN_cases:
  "toRPN ts = (if balanced ts then toRPN ts else Inl MismatchedParentheses)
   \<and> (balanced ts \<longrightarrow> (\<exists>rpn. toRPN ts = Inr rpn))"
proof -
  have r: "RParen \<notin> set ([] :: token list)" by simp
  show ?thesis
  proof (cases "toRPN_loop ts ([], [])")
    case (Inl e)
    with toRPN_loop_parens [OF r, of ts "[]"] show ?thesis
      by (simp add: toRPN_def balanced_def)
  next
    case (Inr st)
    obtain out ops where st: "st = (out, ops)" by (cases st)
    from toRPN_loop_parens [OF r, of ts "[]"] Inr st
    have "paren_depth 0 ts = Some (count_list ops LParen)" "RParen \<notin> set ops" by auto
    with Inr st show ?thesis
      by (simp add: toRPN_def balanced_def drain_parens)
  qed
qed

text \<open>The tokens of a text have the parentheses of the text.\<close>

lemma text_depth_dropWhile:
  "\<forall>c. P c \<longrightarrow> c \<noteq> CHR ''('' \<and> c \<noteq> CHR '')'' \<Longrightarrow>
   text_depth d (dropWhile P s) = text_depth d s"
  by (induction s) auto

lemma paren_depth_snoc_other:
  "t \<noteq> LParen \<Longrightarrow> t \<noteq> RParen \<Longrightarrow> paren_depth d (ts @ [t]) = paren_depth d ts"
  by (cases t) (auto simp: paren_depth_append split: option.splits)

lemma tokenize_from_parens:
  "tokenize_from acc s = Inr ts \<Longrightarrow>
   paren_depth d ts = (case paren_depth d acc of None \<Rightarrow> None | Some d' \<Rightarrow> text_depth d' s)"
proof (induction acc s arbitrary: ts rule: tokenize_from.induct)
  case (1 tokens)
  then show ?case by (auto split: option.splits)
next
  case (2 tokens c cs)
  have numc: "\<forall>c. isNumChar c \<longrightarrow> c \<noteq> CHR ''('' \<and> c \<noteq> CHR '')''"
    by (auto simp: char_class_defs)
  have alnumc: "\<forall>c. isLetterOrDigit c \<longrightarrow> c \<noteq> CHR ''('' \<and> c \<noteq> CHR '')''"
    by (auto simp: char_class_defs)
  consider (white) "isWhite c"
    | (num) "\<not> isWhite c" "isDigit c \<or> c = CHR ''.''"
    | (lp) "\<not> isWhite c" "\<not> (isDigit c \<or> c = CHR ''.'')" "c = CHR ''(''"
    | (rp) "\<not> isWhite c" "\<not> (isDigit c \<or> c = CHR ''.'')" "c \<noteq> CHR ''(''" "c = CHR '')''"
    | (pc) "\<not> isWhite c" "\<not> (isDigit c \<or> c = CHR ''.'')" "c \<noteq> CHR ''(''" "c \<noteq> CHR '')''"
        "c = CHR ''%''"
    | (op) "\<not> isWhite c" "\<not> (isDigit c \<or> c = CHR ''.'')" "c \<noteq> CHR ''(''" "c \<noteq> CHR '')''"
        "c \<noteq> CHR ''%''" "isOperator c"
    | (fn) "\<not> isWhite c" "\<not> (isDigit c \<or> c = CHR ''.'')" "c \<noteq> CHR ''(''" "c \<noteq> CHR '')''"
        "c \<noteq> CHR ''%''" "\<not> isOperator c" "isLetter c"
    | (bad) "\<not> isWhite c" "\<not> (isDigit c \<or> c = CHR ''.'')" "c \<noteq> CHR ''(''" "c \<noteq> CHR '')''"
        "c \<noteq> CHR ''%''" "\<not> isOperator c" "\<not> isLetter c"
    by blast
  then show ?case
  proof cases
    case white
    then have "c \<noteq> CHR ''('' \<and> c \<noteq> CHR '')''" by (auto simp: char_class_defs)
    with white "2.IH"(1) "2.prems" show ?thesis by (auto split: option.splits)
  next
    case num
    with "2.prems" have t: "tokenize_from (tokens @ [Num (takeWhile isNumChar (c # cs))])
        (dropWhile isNumChar (c # cs)) = Inr ts" by simp
    from "2.IH"(2) [OF num t] text_depth_dropWhile [OF numc, of _ "c # cs"]
    show ?thesis by (simp add: paren_depth_snoc_other split: option.splits)
  next
    case lp
    with "2.prems" have t: "tokenize_from (tokens @ [LParen]) cs = Inr ts" by simp
    from "2.IH"(3) [OF lp t] lp show ?thesis
      by (simp add: paren_depth_append split: option.splits)
  next
    case rp
    with "2.prems" have t: "tokenize_from (tokens @ [RParen]) cs = Inr ts" by simp
    from "2.IH"(4) [OF rp t] rp show ?thesis
      by (simp add: paren_depth_append split: option.splits nat.splits)
  next
    case pc
    with "2.prems" have t: "tokenize_from (tokens @ [Percent]) cs = Inr ts" by simp
    from "2.IH"(5) [OF pc t] pc show ?thesis
      by (simp add: paren_depth_snoc_other split: option.splits)
  next
    case op
    show ?thesis
    proof (cases "unary c tokens")
      case True
      with op "2.prems" have t: "tokenize_from (tokens @ [Num ''0'', Op c]) cs = Inr ts" by simp
      from "2.IH"(6) [OF op True t] op show ?thesis
        by (simp add: paren_depth_append split: option.splits)
    next
      case False
      with op "2.prems" have t: "tokenize_from (tokens @ [Op c]) cs = Inr ts" by simp
      from "2.IH"(7) [OF op False t] op show ?thesis
        by (simp add: paren_depth_snoc_other split: option.splits)
    qed
  next
    case fn
    with "2.prems" have t: "tokenize_from (tokens @ [Func (takeWhile isLetterOrDigit (c # cs))])
        (dropWhile isLetterOrDigit (c # cs)) = Inr ts" by simp
    from "2.IH"(8) [OF fn t] text_depth_dropWhile [OF alnumc, of _ "c # cs"]
    show ?thesis by (simp add: paren_depth_snoc_other split: option.splits)
  next
    case bad
    with "2.prems" show ?thesis by simp
  qed
qed

lemma tokenize_from_error_shape:
  "case tokenize_from acc s of Inl err \<Rightarrow> (\<exists>c. err = InvalidCharacter c) | Inr ts \<Rightarrow> True"
proof (induction acc s rule: tokenize_from.induct)
  case (1 tokens)
  show ?case by simp
next
  case (2 tokens c cs)
  then show ?case by simp
qed

lemma tokenize_from_error:
  "tokenize_from acc s = Inl err \<Longrightarrow> \<exists>c. err = InvalidCharacter c"
  using tokenize_from_error_shape [of acc s] by simp

lemma tokenize_balanced: "tokenize s = Inr ts \<Longrightarrow> balanced ts = balanced_text s"
  using tokenize_from_parens [of "[]" s ts 0] by (simp add: tokenize_def balanced_def balanced_text_def)

lemma blank_balanced_text: "\<forall>c\<in>set s. isWhite c \<Longrightarrow> text_depth d s = Some d"
  by (induction s) (auto simp: char_class_defs)

lemma toRPN_unbalanced: "\<not> balanced ts \<Longrightarrow> toRPN ts = Inl MismatchedParentheses"
  using toRPN_cases [of ts] by metis

lemma toRPN_balanced: "balanced ts \<Longrightarrow> \<exists>rpn. toRPN ts = Inr rpn"
  using toRPN_cases [of ts] by blast

lemma unbalanced_text_not_blank: "\<not> balanced_text s \<Longrightarrow> s \<noteq> [] \<and> trim s \<noteq> []"
  using blank_balanced_text [of s 0] by (auto simp: balanced_text_def trim_Nil_iff)

text \<open>
  Claim C5, as amended.  \<open>toRPN\<close> throws "Mismatched parentheses" (the spec's MismatchedParenError)
  exactly when the parentheses of the tokens are unbalanced, and it throws nothing else:
  a closing parenthesis without an open partner empties the stack inside the loop, and a
  parenthesis left open is found on the stack by the final loop.  The tokens of a text
  are balanced exactly when the text is.  So for every text with unbalanced parentheses
  the failure happens in the conversion, before the evaluator runs: \<open>evaluateExpression\<close>
  fails with "Mismatched parentheses", unless the tokenizer has already rejected a
  character of the text.  In particular \<open>(2+3\<close> fails with "Mismatched parentheses".
\<close>

theorem toRPN_mismatched:
  "(toRPN ts = Inl MismatchedParentheses \<longleftrightarrow> \<not> balanced ts)
   \<and> (toRPN ts = Inl err \<longrightarrow> err = MismatchedParentheses)
   \<and> (toRPN_loop ts ([], []) = Inl MismatchedParentheses \<longleftrightarrow> paren_depth 0 ts = None)
   \<and> (paren_depth 0 ts = Some (Suc d) \<longrightarrow>
        (\<exists>out ops. toRPN_loop ts ([], []) = Inr (out, ops)
                   \<and> drain out ops = Inl MismatchedParentheses))
   \<and> (tokenize s = Inr ts \<longrightarrow> balanced ts = balanced_text s)
   \<and> (tokenize s = Inr ts \<and> \<not> balanced_text s \<longrightarrow>
        toRPN ts = Inl MismatchedParentheses
        \<and> evaluateExpression pw s = Inl MismatchedParentheses)
   \<and> (\<not> balanced_text s \<longrightarrow>
        evaluateExpression pw s = Inl MismatchedParentheses
        \<or> (\<exists>c. evaluateExpression pw s = Inl (InvalidCharacter c)))
   \<and> evaluateExpression pw ''(2+3'' = Inl MismatchedParentheses"
proof -
  have r: "RParen \<notin> set ([] :: token list)" by simp
  note lp = toRPN_loop_parens [OF r, of ts "[]", simplified]
  have 1: "toRPN ts = Inl MismatchedParentheses \<longleftrightarrow> \<not> balanced ts"
    using toRPN_unbalanced [of ts] toRPN_balanced [of ts] by auto
  have 2: "toRPN ts = Inl err \<longrightarrow> err = MismatchedParentheses"
    using toRPN_unbalanced [of ts] toRPN_balanced [of ts] by (cases "balanced ts") auto
  have 3: "toRPN_loop ts ([], []) = Inl MismatchedParentheses \<longleftrightarrow> paren_depth 0 ts = None"
    using lp by (auto split: sum.splits prod.splits)
  have 4: "paren_depth 0 ts = Some (Suc d) \<longrightarrow>
        (\<exists>out ops. toRPN_loop ts ([], []) = Inr (out, ops)
                   \<and> drain out ops = Inl MismatchedParentheses)"
    using lp by (auto simp: drain_parens split: sum.splits prod.splits)
  have 5: "tokenize s = Inr ts \<longrightarrow> balanced ts = balanced_text s"
    by (simp add: tokenize_balanced)
  have 6: "toRPN ts = Inl MismatchedParentheses
        \<and> evaluateExpression pw s = Inl MismatchedParentheses"
    if "tokenize s = Inr ts" "\<not> balanced_text s"
  proof -
    from that have "\<not> balanced ts" by (simp add: tokenize_balanced)
    then have "toRPN ts = Inl MismatchedParentheses" by (rule toRPN_unbalanced)
    with that(1) unbalanced_text_not_blank [OF that(2)] show ?thesis
      by (simp add: evaluateExpression_def)
  qed
  have 7: "evaluateExpression pw s = Inl MismatchedParentheses
        \<or> (\<exists>c. evaluateExpression pw s = Inl (InvalidCharacter c))"
    if u: "\<not> balanced_text s"
  proof (cases "tokenize s")
    case (Inl e)
    then obtain c where "e = InvalidCharacter c"
      using tokenize_from_error [of "[]" s e] by (auto simp: tokenize_def)
    with Inl unbalanced_text_not_blank [OF u] show ?thesis
      by (simp add: evaluateExpression_def)
  next
    case (Inr ts')
    from Inr u have "\<not> balanced ts'" by (simp add: tokenize_balanced)
    then have "toRPN ts' = Inl MismatchedParentheses" by (rule toRPN_unbalanced)
    with Inr unbalanced_text_not_blank [OF u] show ?thesis
      by (simp add: evaluateExpression_def)
  qed
  have 8: "evaluateExpression pw ''(2+3'' = Inl MismatchedParentheses"
    by (simp add: parser_defs char_class_defs number_text_defs arith_defs)
  from 1 2 3 4 5 6 7 8 show ?thesis by blast
qed

theorem toRPN_mismatched_witness:
  "tokenize ''2+3)*4'' = Inr [Num ''2'', Op (CHR ''+''), Num ''3'', RParen, Op (CHR ''*''), Num ''4'']
   \<and> \<not> balanced_text ''2+3)*4''
   \<and> paren_depth 0 [Num ''2'', Op (CHR ''+''), Num ''3'', RParen, Op (CHR ''*''), Num ''4''] = None
   \<and> toRPN [Num ''2'', Op (CHR ''+''), Num ''3'', RParen, Op (CHR ''*''), Num ''4'']
       = Inl MismatchedParentheses
   \<and> evaluateExpression sample_host ''2+3)*4'' = Inl MismatchedParentheses
   \<and> paren_depth 0 [LParen, Num ''2'', Op (CHR ''+''), Num ''3''] = Some (Suc 0)
   \<and> toRPN [LParen, Num ''2'', Op (CHR ''+''), Num ''3''] = Inl MismatchedParentheses"
proof -
  have t: "tokenize ''2+3)*4''
      = Inr [Num ''2'', Op (CHR ''+''), Num ''3'', RParen, Op (CHR ''*''), Num ''4'']"
    by (simp add: parser_defs char_class_defs)
  have u: "\<not> balanced_text ''2+3)*4''" by (simp add: balanced_text_def)
  have p: "paren_depth 0 [LParen, Num ''2'', Op (CHR ''+''), Num ''3''] = Some (Suc 0)"
    "paren_depth 0 [Num ''2'', Op (CHR ''+''), Num ''3'', RParen, Op (CHR ''*''), Num ''4''] = None"
    by simp_all
  from p(1) have nb: "\<not> balanced [LParen, Num ''2'', Op (CHR ''+''), Num ''3'']"
    by (simp add: balanced_def)
  show ?thesis
    using t u p nb
      toRPN_mismatched [of "[Num ''2'', Op (CHR ''+''), Num ''3'', RParen, Op (CHR ''*''), Num ''4'']"
        _ _ "''2+3)*4''" sample_host]
      toRPN_mismatched [of "[LParen, Num ''2'', Op (CHR ''+''), Num ''3'']" _ _ "[]" sample_host]
    by simp
qed

text \<open>
  The claim as stated fails: a text with unbalanced parentheses does not always fail in
  the conversion.  In \<open>(&\<close> a parenthesis stays open, but the tokenizer throws "Invalid
  character" at \<open>&\<close>, before \<open>toRPN\<close> is called, and that is the error of
  \<open>evaluateExpression\<close>.
\<close>

theorem toRPN_mismatched_counterexample:
  "\<not> balanced_text ''(&''
   \<and> tokenize ''(&'' = Inl (InvalidCharacter (CHR ''&''))
   \<and> evaluateExpression sample_host ''(&'' = Inl (InvalidCharacter (CHR ''&''))
   \<and> evaluateExpression sample_host ''(&'' \<noteq> Inl MismatchedParentheses"
  by (simp add: balanced_text_def parser_defs char_class_defs trim_def)

subsection \<open>Unary signs\<close>

text \<open>The tokenizer only appends to the tokens it has.\<close>

lemma tokenize_from_extends: "tokenize_from acc s = Inr ts \<Longrightarrow> \<exists>rest. ts = acc @ rest"
proof (induction acc s arbitrary: ts rule: tokenize_from.induct)
  case (1 tokens)
  then show ?case by simp
next
  case (2 tokens c cs)
  have snoc: "\<exists>rest. ts = tokens @ rest" if "\<exists>rest. ts = (tokens @ xs) @ rest" for xs
    using that by auto
  consider (white) "isWhite c"
    | (num) "\<not> isWhite c" "isDigit c \<or> c = CHR ''.''"
    | (lp) "\<not> isWhite c" "\<not> (isDigit c \<or> c = CHR ''.'')" "c = CHR ''(''"
    | (rp) "\<not> isWhite c" "\<not> (isDigit c \<or> c = CHR ''.'')" "c \<noteq> CHR ''(''" "c = CHR '')''"
    | (pc) "\<not> isWhite c" "\<not> (isDigit c \<or> c = CHR ''.'')" "c \<noteq> CHR ''(''" "c \<noteq> CHR '')''"
        "c = CHR ''%''"
    | (op) "\<not> isWhite c" "\<not> (isDigit c \<or> c = CHR ''.'')" "c \<noteq> CHR ''(''" "c \<noteq> CHR '')''"
        "c \<noteq> CHR ''%''" "isOperator c"
    | (fn) "\<not> isWhite c" "\<not> (isDigit c \<or> c = CHR ''.'')" "c \<noteq> CHR ''(''" "c \<noteq> CHR '')''"
        "c \<noteq> CHR ''%''" "\<not> isOperator c" "isLetter c"
    | (bad) "\<not> isWhite c" "\<not> (isDigit c \<or> c = CHR ''.'')" "c \<noteq> CHR ''(''" "c \<noteq> CHR '')''"
        "c \<noteq> CHR ''%''" "\<not> isOperator c" "\<not> isLetter c"
    by blast
  then show ?case
  proof cases
    case white
    with "2.prems" have "tokenize_from tokens cs = Inr ts" by simp
    from "2.IH"(1) [OF white this] show ?thesis .
  next
    case num
    with "2.prems" have "tokenize_from (tokens @ [Num (takeWhile isNumChar (c # cs))])
        (dropWhile isNumChar (c # cs)) = Inr ts" by simp
    from "2.IH"(2) [OF num this] show ?thesis by (rule snoc)
  next
    case lp
    with "2.prems" have "tokenize_from (tokens @ [LParen]) cs = Inr ts" by simp
    from "2.IH"(3) [OF lp this] show ?thesis by (rule snoc)
  next
    case rp
    with "2.prems" have "tokenize_from (tokens @ [RParen]) cs = Inr ts" by simp
    from "2.IH"(4) [OF rp this] show ?thesis by (rule snoc)
  next
    case pc
    with "2.prems" have "tokenize_from (tokens @ [Percent]) cs = Inr ts" by simp
    from "2.IH"(5) [OF pc this] show ?thesis by (rule snoc)
  next
    case op
    show ?thesis
    proof (cases "unary c tokens")
      case True
      with op "2.prems" have "tokenize_from (tokens @ [Num ''0'', Op c]) cs = Inr ts" by simp
      from "2.IH"(6) [OF op True this] show ?thesis by (rule snoc)
    next
      case False
      with op "2.prems" have "tokenize_from (tokens @ [Op c]) cs = Inr ts" by simp
      from "2.IH"(7) [OF op False this] show ?thesis by (rule snoc)
    qed
  next
    case fn
    with "2.prems" have "tokenize_from (tokens @ [Func (takeWhile isLetterOrDigit (c # cs))])
        (dropWhile isLetterOrDigit (c # cs)) = Inr ts" by simp
    from "2.IH"(8) [OF fn this] show ?thesis by (rule snoc)
  next
    case bad
    with "2.prems" show ?thesis by simp
  qed
qed

lemma operator_char:
  "isOperator c \<Longrightarrow> \<not> isWhite c \<and> \<not> isDigit c \<and> c \<noteq> CHR ''.'' \<and> c \<noteq> CHR ''(''
     \<and> c \<noteq> CHR '')'' \<and> c \<noteq> CHR ''%''"
  by (auto simp: char_class_defs)

text \<open>
  Claim C2.  At an operator character the tokenizer pushes the operator token, and
  immediately before it a synthetic number token \<open>0\<close> exactly when the character is \<open>+\<close> or
  \<open>-\<close> and there is no previous token, or the previous token is a left parenthesis or an
  operator; the tokens pushed here stand in the result of the call.  For \<open>*\<close>, \<open>/\<close> and
  \<open>^\<close> no zero is pushed, also at the start and after a parenthesis.  So \<open>-5\<close> is read as
  the tokens \<open>0\<close>, \<open>-\<close>, \<open>5\<close>, and \<open>-5+2\<close> evaluates to -3.
\<close>

theorem unary_sign_zero:
  "(isOperator c \<longrightarrow>
      tokenize_from tokens (c # cs) =
        tokenize_from
          (tokens
           @ (if (c = CHR ''+'' \<or> c = CHR ''-'')
                 \<and> (tokens = [] \<or> last tokens = LParen \<or> (\<exists>d. last tokens = Op d))
              then [Num ''0''] else [])
           @ [Op c]) cs)
   \<and> (isOperator c \<and> tokenize_from tokens (c # cs) = Inr ts \<longrightarrow>
        (\<exists>rest. ts = tokens
           @ (if (c = CHR ''+'' \<or> c = CHR ''-'')
                 \<and> (tokens = [] \<or> last tokens = LParen \<or> (\<exists>d. last tokens = Op d))
              then [Num ''0''] else [])
           @ [Op c] @ rest))
   \<and> tokenize ''-5'' = Inr [Num ''0'', Op (CHR ''-''), Num ''5'']
   \<and> tokenize ''(+5)'' = Inr [LParen, Num ''0'', Op (CHR ''+''), Num ''5'', RParen]
   \<and> tokenize ''2*-5'' = Inr [Num ''2'', Op (CHR ''*''), Num ''0'', Op (CHR ''-''), Num ''5'']
   \<and> tokenize ''2-5'' = Inr [Num ''2'', Op (CHR ''-''), Num ''5'']
   \<and> tokenize ''*5'' = Inr [Op (CHR ''*''), Num ''5'']
   \<and> tokenize ''(/5)'' = Inr [LParen, Op (CHR ''/''), Num ''5'', RParen]
   \<and> evaluateExpression pw ''-5+2'' = Inr (Fin (- 3))"
proof -
  have u: "unary c tokens \<longleftrightarrow> (c = CHR ''+'' \<or> c = CHR ''-'')
      \<and> (tokens = [] \<or> last tokens = LParen \<or> (\<exists>d. last tokens = Op d))"
    by (cases "last tokens") (auto simp: unary_def)
  have 1: "tokenize_from tokens (c # cs) =
        tokenize_from (tokens @ (if unary c tokens then [Num ''0''] else []) @ [Op c]) cs"
    if "isOperator c"
    using that operator_char [OF that] by simp
  have 2: "\<exists>rest. ts = tokens @ (if unary c tokens then [Num ''0''] else []) @ [Op c] @ rest"
    if "isOperator c" "tokenize_from tokens (c # cs) = Inr ts"
    using tokenize_from_extends [of "tokens @ (if unary c tokens then [Num ''0''] else []) @ [Op c]" cs ts]
      1 [OF that(1)] that(2) by auto
  have 3: "tokenize ''-5'' = Inr [Num ''0'', Op (CHR ''-''), Num ''5'']"
    "tokenize ''(+5)'' = Inr [LParen, Num ''0'', Op (CHR ''+''), Num ''5'', RParen]"
    "tokenize ''2*-5'' = Inr [Num ''2'', Op (CHR ''*''), Num ''0'', Op (CHR ''-''), Num ''5'']"
    "tokenize ''2-5'' = Inr [Num ''2'', Op (CHR ''-''), Num ''5'']"
    "tokenize ''*5'' = Inr [Op (CHR ''*''), Num ''5'']"
    "tokenize ''(/5)'' = Inr [LParen, Op (CHR ''/''), Num ''5'', RParen]"
    by (simp_all add: parser_defs char_class_defs)
  have 4: "evaluateExpression pw ''-5+2'' = Inr (Fin (- 3))"
    by (simp add: parser_defs char_class_defs number_text_defs arith_defs)
  from 1 2 3 4 show ?thesis unfolding u by blast
qed

theorem unary_sign_zero_witness:
  "isOperator (CHR ''-'')
   \<and> tokenize_from [LParen] ''-5)'' = Inr [LParen, Num ''0'', Op (CHR ''-''), Num ''5'', RParen]
   \<and> tokenize_from [Num ''2''] ''-5'' = Inr [Num ''2'', Op (CHR ''-''), Num ''5'']"
proof -
  have o: "isOperator (CHR ''-'')" by (simp add: isOperator_def)
  have "tokenize_from [LParen, Num ''0'', Op (CHR ''-'')] ''5)''
      = Inr [LParen, Num ''0'', Op (CHR ''-''), Num ''5'', RParen]"
    "tokenize_from [Num ''2'', Op (CHR ''-'')] ''5'' = Inr [Num ''2'', Op (CHR ''-''), Num ''5'']"
    by (simp_all add: char_class_defs)
  with o unary_sign_zero [of "CHR ''-''" "[LParen]" "''5)''"]
    unary_sign_zero [of "CHR ''-''" "[Num ''2'']" "''5''"]
  show ?thesis by simp
qed

subsection \<open>Rounding a positive rational\<close>

text \<open>
  The binary64 value of a positive rational in the normal range, from its binade and the
  integer nearest to its scaled significand; the literal \<open>1e-12\<close> is an instance.
\<close>

lemma round_half_even_unique:
  assumes "of_int k - 1 / 2 < r" "r < of_int k + 1 / 2"
  shows "round_half_even r = k"
proof -
  have "\<lfloor>r\<rfloor> = k \<or> \<lfloor>r\<rfloor> = k - 1"
  proof -
    have "of_int (k - 1) \<le> r" using assms(1) by simp
    then have 1: "k - 1 \<le> \<lfloor>r\<rfloor>" by (simp only: le_floor_iff)
    have "r < of_int (k + 1)" using assms(2) by simp
    then have 2: "\<lfloor>r\<rfloor> < k + 1" by (simp only: floor_less_iff)
    from 1 2 show ?thesis by linarith
  qed
  then show ?thesis
  proof
    assume f: "\<lfloor>r\<rfloor> = k"
    with assms(2) show ?thesis by (simp add: round_half_even_def)
  next
    assume f: "\<lfloor>r\<rfloor> = k - 1"
    with assms(1) show ?thesis by (simp add: round_half_even_def)
  qed
qed

lemma round64_pos:
  assumes q: "2 powi e \<le> q" "q < 2 powi (e + 1)" and e: "- 1022 \<le> e"
    and k: "of_int k - 1 / 2 < q / 2 powi (e - 52)" "q / 2 powi (e - 52) < of_int k + 1 / 2"
    and r: "of_int k * 2 powi (e - 52) < (2::rat) ^ 1024" "0 < k"
  shows "round64 q = Fin (of_int k * 2 powi (e - 52))"
proof -
  have pos: "0 < q" using q(1) powi2_pos [of e] by linarith
  then have a: "\<bar>q\<bar> = q" "q \<noteq> 0" "\<not> q < 0" by simp_all
  have il: "ilog2 q = e" using q by (rule ilog2_unique)
  have m: "max e (- 1022) = e" using e by simp
  have rh: "round_half_even (q / 2 powi (e - 52)) = k" using k by (rule round_half_even_unique)
  have v: "\<not> 2 ^ 1024 \<le> of_int k * (2::rat) powi (e - 52)" "of_int k * (2::rat) powi (e - 52) \<noteq> 0"
    using r by simp_all
  show ?thesis
    by (simp only: round64_def Let_def a il m rh v if_False)
qed

lemma js_1e_12_value: "js_1e_12 = Fin (4951760157141521 / 2 ^ 92)"
  unfolding js_1e_12_def
  using round64_pos [of "- 40" "1 / 10 ^ 12" 4951760157141521]
  by (simp add: power_int_minus)

subsection \<open>Formatting the number one\<close>

lemma ilog10_1: "ilog10 1 = 0"
  by (simp add: ilog10_def compute_floorlog)

lemma dec_digits_small: "0 \<le> n \<Longrightarrow> n < 10 \<Longrightarrow> dec_digits n = [digit_char n]"
  by (simp add: dec_digits.simps)

lemma dec_digits_1: "dec_digits 1 = ''1''"
  by (simp add: dec_digits_small digit_char_def char_of_eq_iff)

lemma js_toString_1: "js_toString (Fin 1) = ''1''"
  by (simp add: ilog10_1 Let_def render_digits_def dec_digits_1 del: Suc_numeral)

lemma formatNumber_1: "formatNumber (Fin 1) = ''1''"
  by (simp add: formatNumber_def js_isFinite_def is_int_def js_sub_def js_add_def js_isInf_def
      js_lt_def js_1e_12_value js_toString_1 del: js_toString.simps)

subsection \<open>Malformed numeric text\<close>

text \<open>NaN spreads through the arithmetic, except through a power with exponent zero.\<close>

lemma js_nan_simps:
  "js_add NaN b = NaN" "js_add a NaN = NaN" "js_sub NaN b = NaN" "js_sub a NaN = NaN"
  "js_mul NaN b = NaN" "js_mul a NaN = NaN" "js_div NaN b = NaN" "js_div a NaN = NaN"
  "js_pow pw a NaN = NaN" "\<not> js_isZero b \<Longrightarrow> js_pow pw NaN b = NaN"
  "js_sqrt NaN = NaN"
  by (simp_all add: js_add_def js_sub_def js_mul_def js_div_def js_pow_def)

lemma js_pow_zero: "js_isZero b \<Longrightarrow> js_pow pw a b = Fin 1"
  by (auto simp: js_pow_def js_isZero_def)

lemma nan_flows_value: "nan_flows pw e \<Longrightarrow> std_value pw e = Inr v \<Longrightarrow> v = NaN"
proof (induction e arbitrary: v)
  case (Lit s)
  then show ?case by simp
next
  case (Paren e)
  then show ?case by simp
next
  case (Bin l c r)
  from Bin.prems(2) obtain a b where
    a: "std_value pw l = Inr a" and b: "std_value pw r = Inr b" and v: "std_apply pw c a b = Inr v"
    by (auto split: sum.splits)
  show ?case
  proof (cases "c = CHR ''^''")
    case True
    with Bin.prems(1) b have "nan_flows pw r \<or> (nan_flows pw l \<and> \<not> js_isZero b)" by simp
    then show ?thesis
    proof
      assume "nan_flows pw r"
      from Bin.IH(2) [OF this b] v True show ?thesis by (simp add: std_apply_def js_nan_simps)
    next
      assume "nan_flows pw l \<and> \<not> js_isZero b"
      with Bin.IH(1) [OF _ a] v True show ?thesis by (simp add: std_apply_def js_nan_simps)
    qed
  next
    case False
    with Bin.prems(1) have "nan_flows pw l \<or> nan_flows pw r" by simp
    then have "a = NaN \<or> b = NaN" using Bin.IH(1) [OF _ a] Bin.IH(2) [OF _ b] by blast
    with v False show ?thesis
      by (auto simp: std_apply_def js_nan_simps split: if_splits)
  qed
qed

lemma std_value_error: "grammar p e \<Longrightarrow> std_value pw e = Inl err \<Longrightarrow> err = DivideByZero"
proof (induction e arbitrary: p)
  case (Bin l c r)
  from Bin.prems(1) obtain pl pr where g: "grammar pl l" "grammar pr r"
    and c: "c = CHR ''+'' \<or> c = CHR ''-'' \<or> c = CHR ''*'' \<or> c = CHR ''/'' \<or> c = CHR ''^''"
    by (cases rule: grammar_Bin) auto
  show ?case
  proof (cases "std_value pw l")
    case (Inl e1)
    with Bin.prems(2) Bin.IH(1) [OF g(1)] show ?thesis by simp
  next
    case a: (Inr a)
    show ?thesis
    proof (cases "std_value pw r")
      case (Inl e2)
      with a Bin.prems(2) Bin.IH(2) [OF g(2)] show ?thesis by simp
    next
      case (Inr b)
      with a Bin.prems(2) c show ?thesis by (auto simp: std_apply_def split: if_splits)
    qed
  qed
qed simp_all

text \<open>A run of digits and points with two or more points is no decimal literal.\<close>

lemma isNumChar_facts:
  "isNumChar c \<Longrightarrow> \<not> isWhite c \<and> c \<noteq> CHR ''+'' \<and> c \<noteq> CHR ''-'' \<and> c \<noteq> CHR ''e''
     \<and> c \<noteq> CHR ''E'' \<and> c \<noteq> CHR ''I'' \<and> c \<noteq> CHR ''x'' \<and> c \<noteq> CHR ''X'' \<and> c \<noteq> CHR ''o''
     \<and> c \<noteq> CHR ''O'' \<and> c \<noteq> CHR ''b'' \<and> c \<noteq> CHR ''B''"
  by (auto simp: char_class_defs)

lemma trim_numeric:
  assumes "t \<noteq> []" "list_all isNumChar t"
  shows "trim t = t"
proof -
  from assms have h: "\<not> isWhite (hd t)" and l: "\<not> isWhite (last t)"
    using isNumChar_facts by (auto simp: list_all_iff)
  from h assms(1) have 1: "dropWhile isWhite t = t" by (cases t) auto
  from l assms(1) have 2: "dropWhile isWhite (rev t) = rev t"
    by (cases "rev t") (auto simp: last_rev [symmetric] simp del: last_rev)
  show ?thesis by (simp add: trim_def 1 2)
qed

lemma count_dropWhile_digits:
  "count_list (dropWhile isDigit t) (CHR ''.'') = count_list t (CHR ''.'')"
  by (induction t) (auto simp: char_class_defs)

lemma dec_mantissa_two_points:
  assumes "list_all isNumChar t" "2 \<le> count_list t (CHR ''.'')"
  shows "dec_mantissa t = None"
proof (cases "dropWhile isDigit t")
  case Nil
  with count_dropWhile_digits [of t] assms(2) show ?thesis by simp
next
  case (Cons c fp)
  have "set (dropWhile isDigit t) \<subseteq> set t" by (rule set_dropWhileD [THEN subsetI])
  with assms(1) Cons have nc: "isNumChar c" by (auto simp: list_all_iff)
  from Cons have "\<not> isDigit c" using hd_dropWhile [of isDigit t] by auto
  with nc have c: "c = CHR ''.''" by (simp add: isNumChar_def)
  from count_dropWhile_digits [of t] assms(2) Cons c have "1 \<le> count_list fp (CHR ''.'')" by simp
  then have "CHR ''.'' \<in> set fp" by (metis count_list_0_iff not_one_le_zero)
  moreover have "\<not> isDigit (CHR ''.'')" by (simp add: isDigit_def)
  ultimately have "\<not> list_all isDigit fp" by (auto simp: list_all_iff)
  with Cons show ?thesis by (simp add: dec_mantissa_def)
qed

lemma js_Number_two_points:
  assumes "t \<noteq> []" "list_all isNumChar t" "2 \<le> count_list t (CHR ''.'')"
  shows "js_Number t = NaN"
proof -
  from assms(1) obtain c r where t: "t = c # r" by (cases t) auto
  with assms(2) have c: "isNumChar c" by simp
  have all: "\<forall>x\<in>set t. x \<noteq> CHR ''e'' \<and> x \<noteq> CHR ''E''"
    using assms(2) isNumChar_facts by (auto simp: list_all_iff)
  have radix: "radix_literal t = None"
  proof (cases r)
    case Nil
    with t show ?thesis by (simp add: radix_literal_def)
  next
    case (Cons p ds)
    with t assms(2) have "isNumChar p" by simp
    from isNumChar_facts [OF this] t Cons show ?thesis by (simp add: radix_literal_def)
  qed
  have inf: "t \<noteq> ''Infinity''" using t isNumChar_facts [OF c] by auto
  have tw: "takeWhile (\<lambda>c. c \<noteq> CHR ''e'' \<and> c \<noteq> CHR ''E'') t = t"
    using all by (simp add: takeWhile_eq_all_conv)
  have dw: "dropWhile (\<lambda>c. c \<noteq> CHR ''e'' \<and> c \<noteq> CHR ''E'') t = []"
    using all by simp
  have ud: "unsigned_decimal t = NaN"
    using inf by (simp add: unsigned_decimal_def tw dw dec_mantissa_two_points [OF assms(2,3)])
  have "js_Number t =
      (case t of
         c # r \<Rightarrow> if c = CHR ''+'' then unsigned_decimal r
                  else if c = CHR ''-'' then js_neg (unsigned_decimal r)
                  else unsigned_decimal t
       | [] \<Rightarrow> Fin 0)"
    using assms(1) radix by (simp add: js_Number_def trim_numeric [OF assms(1,2)])
  also have "\<dots> = unsigned_decimal t"
    using isNumChar_facts [OF c] by (simp add: t)
  finally show ?thesis by (simp add: ud)
qed

lemma formatNumber_NaN: "formatNumber NaN = ''Error''"
  by (simp add: formatNumber_def js_isFinite_def)

text \<open>The marks stay sound along the evaluation, and a program with marks left has run.\<close>

lemma flow_step_sound:
  assumes "marked ms st" "evalRPN_step pw t st = Inr st'"
  shows "marked (flow_step t st ms) st'"
proof (cases t)
  case (Num v)
  with assms show ?thesis by (auto simp: marked_def)
next
  case (Op c)
  show ?thesis
  proof (cases "c = CHR ''%''")
    case True
    with assms Op show ?thesis
      by (auto simp: marked_def js_nan_simps list_all2_Cons2 split: list.splits)
  next
    case False
    with assms(2) Op obtain b a r where st: "st = b # a # r"
      by (auto split: list.splits)
    with assms(1) obtain mb ma mr where ms: "ms = mb # ma # mr"
      and m: "mb \<longrightarrow> b = NaN" "ma \<longrightarrow> a = NaN" "marked mr r"
      by (auto simp: marked_def list_all2_Cons2)
    from assms(2) Op False st m show ?thesis
      by (auto simp: ms marked_def js_nan_simps split: if_splits)
  qed
next
  case (Func f)
  with assms show ?thesis
    by (auto simp: marked_def callFunc_def js_nan_simps list_all2_Cons2 split: list.splits if_splits)
next
  case Percent
  with assms show ?thesis by simp
next
  case LParen
  with assms show ?thesis by simp
next
  case RParen
  with assms show ?thesis by simp
qed

lemma flow_loop_sound:
  "marked ms st \<Longrightarrow> evalRPN_loop pw ts st = Inr st' \<Longrightarrow> marked (flow_loop pw ts st ms) st'"
proof (induction ts arbitrary: st ms)
  case Nil
  then show ?case by simp
next
  case (Cons t ts)
  from Cons.prems(2) obtain st1 where s: "evalRPN_step pw t st = Inr st1"
    and l: "evalRPN_loop pw ts st1 = Inr st'"
    by (auto split: sum.splits)
  from flow_step_sound [OF Cons.prems(1) s] have "marked (flow_step t st ms) st1" .
  from Cons.IH [OF this l] s show ?case by simp
qed

lemma flow_loop_runs:
  "flow_loop pw ts st ms = m # r \<Longrightarrow> \<exists>st'. evalRPN_loop pw ts st = Inr st'"
proof (induction ts arbitrary: st ms)
  case Nil
  show ?case by simp
next
  case (Cons t ts)
  show ?case
  proof (cases "evalRPN_step pw t st")
    case (Inl e)
    with Cons.prems show ?thesis by simp
  next
    case (Inr st1)
    with Cons.prems have "flow_loop pw ts st1 (flow_step t st ms) = m # r" by simp
    from Cons.IH [OF this] Inr show ?thesis by simp
  qed
qed

lemma nan_reaches_NaN:
  assumes "nan_reaches pw s"
  shows "evaluateExpression pw s = Inr NaN"
proof -
  from assms obtain ts rpn where t: "tokenize s = Inr ts" and r: "toRPN ts = Inr rpn"
    and f: "flow_loop pw rpn [] [] = [True]"
    by (auto simp: nan_reaches_def split: sum.splits)
  have nb: "\<not> (s = [] \<or> trim s = [])"
  proof
    assume "s = [] \<or> trim s = []"
    then have "\<forall>c\<in>set s. isWhite c" by (auto simp: trim_Nil_iff)
    then have "tokenize s = Inr []" by (simp add: tokenize_def tokenize_from_white)
    with t r have "rpn = []" by (simp add: toRPN_def)
    with f show False by simp
  qed
  from flow_loop_runs [OF f] obtain st where l: "evalRPN_loop pw rpn [] = Inr st" by blast
  have "marked [] []" by (simp add: marked_def)
  from flow_loop_sound [OF this l] f have "marked [True] st" by simp
  then have "st = [NaN]" by (cases st) (auto simp: marked_def)
  with l have "evalRPN pw rpn = Inr NaN" by (simp add: evalRPN_def)
  with nb t r show ?thesis by (simp add: evaluateExpression_def)
qed

text \<open>
  On the parse trees of the grammar the marks of the evaluation are the flow of NaN in the
  tree: the root is marked at the end exactly when the tree has a value and its NaN flows
  to the root.
\<close>

lemma flow_loop_postfix:
  "grammar p e \<Longrightarrow>
   flow_loop pw (postfix e @ rest) st ms =
     (case std_value pw e of
        Inl err \<Rightarrow> []
      | Inr v \<Rightarrow> flow_loop pw rest (v # st) (nan_flows pw e # ms))"
proof (induction e arbitrary: p rest st ms)
  case (Lit s)
  show ?case by simp
next
  case (Paren e)
  then show ?case by (simp split: sum.splits)
next
  case (Bin l c r)
  from Bin.prems obtain p1 p2 where g: "grammar p1 l" "grammar p2 r"
    by (auto split: if_splits)
  have c: "c \<in> {CHR ''+'', CHR ''-'', CHR ''*'', CHR ''/'', CHR ''^''}"
    using Bin.prems by (rule grammar_op)
  then have np: "c \<noteq> CHR ''%''" by auto
  show ?case
  proof (cases "std_value pw l")
    case (Inl err)
    with Bin.IH(1) [OF g(1), of "postfix r @ [Op c] @ rest" st ms] show ?thesis by simp
  next
    case a: (Inr a)
    show ?thesis
    proof (cases "std_value pw r")
      case (Inl err)
      with a Bin.IH(1) [OF g(1), of "postfix r @ [Op c] @ rest" st ms]
        Bin.IH(2) [OF g(2), of "[Op c] @ rest" "a # st" "nan_flows pw l # ms"]
      show ?thesis by simp
    next
      case b: (Inr b)
      have "flow_loop pw (postfix (Bin l c r) @ rest) st ms
          = flow_loop pw ([Op c] @ rest) (b # a # st) (nan_flows pw r # nan_flows pw l # ms)"
        using a b Bin.IH(1) [OF g(1), of "postfix r @ [Op c] @ rest" st ms]
          Bin.IH(2) [OF g(2), of "[Op c] @ rest" "a # st" "nan_flows pw l # ms"]
        by simp
      also have "\<dots> = (case std_apply pw c a b of
            Inl err \<Rightarrow> []
          | Inr v \<Rightarrow> flow_loop pw rest (v # st) (nan_flows pw (Bin l c r) # ms))"
        using evalRPN_step_op [OF c, of pw b a st] np b
        by (auto split: sum.splits)
      finally show ?thesis using a b by simp
    qed
  qed
qed

lemma nan_reaches_expr:
  assumes "grammar p e"
  shows "nan_reaches pw (render e) = (nan_flows pw e \<and> (\<exists>v. std_value pw e = Inr v))"
  using flow_loop_postfix [OF assms, of pw "[]" "[]" "[]"]
  by (auto simp: nan_reaches_def tokenize_expr [OF assms] toRPN_expr [OF assms] split: sum.splits)

text \<open>
  Claim C9, as amended.  A non-empty run of digits and points is read by the tokenizer as
  one number token, whatever the number of points, and no "Invalid character" is thrown
  for it.  With two or more points its conversion by \<open>Number\<close> at evaluation time is NaN,
  and the text alone evaluates to NaN.  NaN spreads through \<open>+ - * /\<close>, through percent
  and \<open>sqrt\<close>, and through \<open>^\<close> unless the exponent is zero.  For every input whose
  evaluation runs to its end with the NaN of a number in the result, along these steps
  (\<open>nan_reaches\<close>), \<open>evaluateExpression\<close> returns NaN: so it is for \<open>sqrt(1.2.3)\<close>,
  \<open>1.2.3%\<close>, \<open>-1.2.3\<close> and \<open> 1.2.3 + 1\<close>.  An expression of numbers, binary operators
  and parentheses whose NaN reaches the result in its parse tree (\<open>nan_flows\<close>) evaluates to
  NaN, unless a division by zero stops the evaluation; on these expressions the two
  notions agree.  NaN is formatted as \<open>Error\<close>.  A power with exponent zero is 1 for every
  base, NaN included.
\<close>

theorem malformed_number_text:
  "(t \<noteq> [] \<and> list_all isNumChar t \<and> (rest = [] \<or> \<not> isNumChar (hd rest)) \<longrightarrow>
      tokenize_from acc (t @ rest) = tokenize_from (acc @ [Num t]) rest)
   \<and> (t \<noteq> [] \<and> list_all isNumChar t \<and> 2 \<le> count_list t (CHR ''.'') \<longrightarrow>
        tokenize t = Inr [Num t] \<and> js_Number t = NaN \<and> evaluateExpression pw t = Inr NaN)
   \<and> (grammar 1 e \<and> nan_flows pw e \<longrightarrow>
        evaluateExpression pw (render e) = Inr NaN
        \<or> evaluateExpression pw (render e) = Inl DivideByZero)
   \<and> js_div NaN (Fin 100) = NaN
   \<and> js_sqrt NaN = NaN
   \<and> (js_isZero b \<longrightarrow> js_pow pw a b = Fin 1)
   \<and> formatNumber NaN = ''Error''
   \<and> evaluateExpression pw ''1.2.3'' = Inr NaN
   \<and> evaluateExpression pw ''2*(1.2.3+1)'' = Inr NaN
   \<and> (nan_reaches pw s \<longrightarrow> evaluateExpression pw s = Inr NaN)
   \<and> evaluateExpression pw ''sqrt(1.2.3)'' = Inr NaN
   \<and> evaluateExpression pw ''1.2.3%'' = Inr NaN
   \<and> evaluateExpression pw ''-1.2.3'' = Inr NaN
   \<and> evaluateExpression pw '' 1.2.3 + 1'' = Inr NaN
   \<and> (grammar 1 e \<longrightarrow>
        nan_reaches pw (render e) = (nan_flows pw e \<and> (\<exists>v. std_value pw e = Inr v)))"
proof -
  have 1: "tokenize_from acc (t @ rest) = tokenize_from (acc @ [Num t]) rest"
    if "t \<noteq> []" "list_all isNumChar t" "rest = [] \<or> \<not> isNumChar (hd rest)"
    using that by (rule tokenize_from_literal)
  have 2: "tokenize t = Inr [Num t] \<and> js_Number t = NaN \<and> evaluateExpression pw t = Inr NaN"
    if t: "t \<noteq> []" "list_all isNumChar t" "2 \<le> count_list t (CHR ''.'')"
  proof -
    have g: "grammar 1 (Lit t)" using t by simp
    have n: "js_Number t = NaN" using t by (rule js_Number_two_points)
    from tokenize_expr [OF g] evaluateExpression_expr [OF g, of pw] n show ?thesis by simp
  qed
  have 3: "evaluateExpression pw (render e) = Inr NaN
        \<or> evaluateExpression pw (render e) = Inl DivideByZero"
    if g: "grammar 1 e" and f: "nan_flows pw e"
  proof (cases "std_value pw e")
    case (Inl err)
    with std_value_error [OF g Inl] evaluateExpression_expr [OF g, of pw] show ?thesis by simp
  next
    case (Inr v)
    with nan_flows_value [OF f Inr] evaluateExpression_expr [OF g, of pw] show ?thesis by simp
  qed
  have 4: "evaluateExpression pw ''1.2.3'' = Inr NaN"
    "evaluateExpression pw ''2*(1.2.3+1)'' = Inr NaN"
    by (simp_all add: parser_defs char_class_defs number_text_defs arith_defs)
  have 5: "evaluateExpression pw ''sqrt(1.2.3)'' = Inr NaN"
    "evaluateExpression pw ''1.2.3%'' = Inr NaN"
    "evaluateExpression pw ''-1.2.3'' = Inr NaN"
    "evaluateExpression pw '' 1.2.3 + 1'' = Inr NaN"
    by (simp_all add: parser_defs char_class_defs number_text_defs arith_defs)
  have 6: "nan_reaches pw s \<longrightarrow> evaluateExpression pw s = Inr NaN"
    by (simp add: nan_reaches_NaN)
  have 7: "grammar 1 e \<longrightarrow>
        nan_reaches pw (render e) = (nan_flows pw e \<and> (\<exists>v. std_value pw e = Inr v))"
    by (simp add: nan_reaches_expr)
  from 1 2 3 4 5 6 7 show ?thesis
    by (simp add: js_nan_simps js_pow_zero formatNumber_NaN)
qed

theorem malformed_number_text_witness:
  "''1.2.3'' \<noteq> [] \<and> list_all isNumChar ''1.2.3'' \<and> 2 \<le> count_list ''1.2.3'' (CHR ''.'')
   \<and> tokenize ''1.2.3'' = Inr [Num ''1.2.3'']
   \<and> js_Number ''1.2.3'' = NaN
   \<and> grammar 1 (Bin (Lit ''1.2.3'') (CHR ''/'') (Lit ''2''))
   \<and> nan_flows sample_host (Bin (Lit ''1.2.3'') (CHR ''/'') (Lit ''2''))
   \<and> evaluateExpression sample_host ''1.2.3/2'' = Inr NaN
   \<and> js_isZero (Fin 0) \<and> js_pow sample_host NaN (Fin 0) = Fin 1
   \<and> nan_reaches sample_host ''2*sqrt(1.2.3)%''
   \<and> evaluateExpression sample_host ''2*sqrt(1.2.3)%'' = Inr NaN"
proof -
  have h: "''1.2.3'' \<noteq> []" "list_all isNumChar ''1.2.3''" "2 \<le> count_list ''1.2.3'' (CHR ''.'')"
    by (simp_all add: char_class_defs)
  have g: "grammar 1 (Bin (Lit ''1.2.3'') (CHR ''/'') (Lit ''2''))"
    by (simp add: char_class_defs)
  from malformed_number_text [of "''1.2.3''" "[]" "[]" sample_host "Lit ''1.2.3''" "Fin 0" NaN] h
  have n: "tokenize ''1.2.3'' = Inr [Num ''1.2.3'']" "js_Number ''1.2.3'' = NaN"
    "js_pow sample_host NaN (Fin 0) = Fin 1"
    by (simp_all add: js_isZero_def)
  then have f: "nan_flows sample_host (Bin (Lit ''1.2.3'') (CHR ''/'') (Lit ''2''))" by simp
  have "evaluateExpression sample_host ''1.2.3/2'' \<noteq> Inl DivideByZero"
    by (simp add: parser_defs char_class_defs number_text_defs arith_defs)
  with malformed_number_text [of "[]" "[]" "[]" sample_host
      "Bin (Lit ''1.2.3'') (CHR ''/'') (Lit ''2'')" "Fin 0" NaN] g f
  have d: "evaluateExpression sample_host ''1.2.3/2'' = Inr NaN" by simp
  have r: "nan_reaches sample_host ''2*sqrt(1.2.3)%''"
    by (simp add: nan_reaches_def parser_defs char_class_defs number_text_defs arith_defs)
  with malformed_number_text [of "[]" "[]" "[]" sample_host "Lit []" "Fin 0" NaN
      "''2*sqrt(1.2.3)%''"]
  have "evaluateExpression sample_host ''2*sqrt(1.2.3)%'' = Inr NaN" by simp
  with d r h n g f show ?thesis by (simp add: js_isZero_def)
qed

text \<open>
  The claim as stated fails: \<open>1.2.3^0\<close> contains such a text and evaluates to the finite
  number 1, which is formatted as \<open>1\<close>, not as \<open>Error\<close>.
\<close>

theorem malformed_number_counterexample:
  "tokenize ''1.2.3^0'' = Inr [Num ''1.2.3'', Op (CHR ''^''), Num ''0'']
   \<and> js_Number ''1.2.3'' = NaN
   \<and> evaluateExpression sample_host ''1.2.3^0'' = Inr (Fin 1)
   \<and> js_isFinite (Fin 1)
   \<and> formatNumber (Fin 1) = ''1''"
proof -
  have "tokenize ''1.2.3^0'' = Inr [Num ''1.2.3'', Op (CHR ''^''), Num ''0'']"
    by (simp add: parser_defs char_class_defs)
  moreover have "js_Number ''1.2.3'' = NaN"
    by (simp add: number_text_defs char_class_defs)
  moreover have "evaluateExpression sample_host ''1.2.3^0'' = Inr (Fin 1)"
    by (simp add: parser_defs char_class_defs number_text_defs arith_defs)
  ultimately show ?thesis by (simp add: js_isFinite_def formatNumber_1)
qed

subsection \<open>Decimal digits\<close>

lemma digit_char_code: "0 \<le> d \<Longrightarrow> d < 10 \<Longrightarrow> (of_char (digit_char d) :: nat) = 48 + nat d"
  by (simp add: digit_char_def)

lemma digit_char_digit: "0 \<le> d \<Longrightarrow> d < 10 \<Longrightarrow> isDigit (digit_char d)"
  by (simp add: isDigit_def digit_char_code)

lemma digit_val_digit_char: "0 \<le> d \<Longrightarrow> d < 10 \<Longrightarrow> digit_val (digit_char d) = nat d"
  by (simp add: digit_val_def digit_char_digit digit_char_code)

lemma digit_char_0: "digit_char 0 = CHR ''0''"
  by (simp add: digit_char_def char_of_eq_iff)

lemma dec_digits_nonempty: "dec_digits n \<noteq> []"
  by (subst dec_digits.simps) simp

lemma dec_digits_digits: "0 \<le> n \<Longrightarrow> list_all isDigit (dec_digits n)"
proof (induction n rule: dec_digits.induct)
  case (1 n)
  show ?case
  proof (cases "n < 10")
    case True
    with "1.prems" show ?thesis by (simp add: dec_digits.simps [of n] digit_char_digit)
  next
    case False
    with "1.prems" "1.IH" show ?thesis
      by (simp add: dec_digits.simps [of n] digit_char_digit)
  qed
qed

lemma digits_val_snoc: "digits_val r (s @ [c]) = r * digits_val r s + digit_val c"
  by (simp add: digits_val_def)

lemma digits_val_dec_digits: "0 \<le> n \<Longrightarrow> digits_val 10 (dec_digits n) = nat n"
proof (induction n rule: dec_digits.induct)
  case (1 n)
  show ?case
  proof (cases "n < 10")
    case True
    with "1.prems" show ?thesis
      by (simp add: dec_digits.simps [of n] digits_val_def digit_val_digit_char)
  next
    case False
    with "1.prems" have "digits_val 10 (dec_digits (n div 10)) = nat (n div 10)"
      by (intro "1.IH") auto
    with False "1.prems" show ?thesis
      by (simp add: dec_digits.simps [of n] digits_val_snoc digit_val_digit_char
          nat_div_distrib nat_mod_distrib)
  qed
qed

lemma dec_digits_times_10: "0 < s \<Longrightarrow> dec_digits (s * 10) = dec_digits s @ ''0''"
  by (subst dec_digits.simps) (simp add: digit_char_0)

lemma dec_digits_times_pow10:
  "0 < s \<Longrightarrow> dec_digits (s * 10 ^ j) = dec_digits s @ replicate j (CHR ''0'')"
proof (induction j)
  case 0
  show ?case by simp
next
  case (Suc j)
  have "s * 10 ^ Suc j = (s * 10 ^ j) * 10" by simp
  then have "dec_digits (s * 10 ^ Suc j) = dec_digits ((s * 10 ^ j) * 10)" by (rule arg_cong)
  also have "\<dots> = dec_digits (s * 10 ^ j) @ ''0''"
    using Suc.prems by (intro dec_digits_times_10) simp
  finally show ?case using Suc by (simp add: replicate_append_same)
qed

lemma dec_digits_length:
  "1 \<le> k \<Longrightarrow> 10 ^ (k - 1) \<le> s \<Longrightarrow> s < 10 ^ k \<Longrightarrow> length (dec_digits s) = k"
proof (induction k arbitrary: s)
  case 0
  then show ?case by simp
next
  case (Suc k)
  show ?case
  proof (cases "k = 0")
    case True
    with Suc.prems show ?thesis by (simp add: dec_digits.simps [of s])
  next
    case False
    then have k: "1 \<le> k" by simp
    from Suc.prems False have s10: "\<not> s < 10"
      using power_increasing [of 1 k "10::int"] by auto
    have "(10::int) ^ k = 10 ^ (k - 1) * 10" using k by (cases k) auto
    with Suc.prems(2) have "10 ^ (k - 1) * 10 \<le> s" by simp
    then have lo: "10 ^ (k - 1) \<le> s div 10" by simp
    from Suc.prems(3) have hi: "s div 10 < 10 ^ k" by simp
    from Suc.IH [OF k lo hi] s10 show ?thesis by (simp add: dec_digits.simps [of s])
  qed
qed

lemma powi10_less_iff: "(10::rat) powi m < 10 powi n \<longleftrightarrow> m < n"
proof
  assume a: "(10::rat) powi m < 10 powi n"
  show "m < n"
  proof (rule ccontr)
    assume "\<not> m < n"
    then have "(10::rat) powi n \<le> 10 powi m" by (intro power_int_increasing) auto
    with a show False by simp
  qed
next
  assume "m < n"
  then show "(10::rat) powi m < 10 powi n" by (intro power_int_strict_increasing) auto
qed

lemma of_nat_floorlog_bounds:
  assumes "0 < n"
  shows "(10::rat) powi (int (floorlog 10 n) - 1) \<le> of_nat n"
    and "(of_nat n :: rat) < 10 powi (int (floorlog 10 n))"
proof -
  from floorlog_bounds [OF assms, of 10]
  have 1: "10 ^ (floorlog 10 n - 1) \<le> n" and 2: "n < 10 ^ floorlog 10 n" by auto
  have "floorlog 10 n \<noteq> 0" using assms by (simp add: floorlog_eq_zero_iff)
  then have f: "1 \<le> floorlog 10 n" by simp
  have e: "int (floorlog 10 n) - 1 = int (floorlog 10 n - 1)" using f by simp
  have "(10::rat) powi (int (floorlog 10 n) - 1) = 10 ^ (floorlog 10 n - 1)"
    unfolding e by (rule power_int_of_nat)
  also have "\<dots> = of_nat (10 ^ (floorlog 10 n - 1))" by simp
  also have "\<dots> \<le> of_nat n" using 1 by (simp only: of_nat_le_iff)
  finally show "(10::rat) powi (int (floorlog 10 n) - 1) \<le> of_nat n" .
  have "(of_nat n :: rat) < of_nat (10 ^ floorlog 10 n)" using 2 by (simp only: of_nat_less_iff)
  also have "\<dots> = 10 powi (int (floorlog 10 n))" by simp
  finally show "(of_nat n :: rat) < 10 powi (int (floorlog 10 n))" .
qed

lemma ilog10_bounds:
  assumes "0 < a"
  shows "10 powi (ilog10 a) \<le> a \<and> a < 10 powi (ilog10 a + 1)"
proof -
  obtain n d where qd: "quotient_of a = (n, d)" by (cases "quotient_of a")
  then have d: "0 < d" and a: "a = of_int n / of_int d"
    using quotient_of_denom_pos quotient_of_div by auto
  with assms have n: "0 < n" by (simp add: zero_less_divide_iff)
  define fn where "fn = int (floorlog 10 (nat n))"
  define fd where "fd = int (floorlog 10 (nat d))"
  define t where "t = fn - fd"
  have nn: "(of_nat (nat n) :: rat) = of_int n" "(of_nat (nat d) :: rat) = of_int d"
    using n d by simp_all
  have pn: "0 < nat n" and pd: "0 < nat d" using n d by simp_all
  have bn: "(10::rat) powi (fn - 1) \<le> of_int n" "(of_int n :: rat) < 10 powi fn"
    using of_nat_floorlog_bounds [OF pn] by (simp_all only: nn fn_def)
  have bd: "(10::rat) powi (fd - 1) \<le> of_int d" "(of_int d :: rat) < 10 powi fd"
    using of_nat_floorlog_bounds [OF pd] by (simp_all only: nn fd_def)
  have dpos: "(0::rat) < of_int d" using d by simp
  have "a < 10 powi fn / 10 powi (fd - 1)"
  proof -
    have "a < 10 powi fn / of_int d"
      unfolding a using bn(2) dpos by (simp add: divide_strict_right_mono)
    also have "\<dots> \<le> 10 powi fn / 10 powi (fd - 1)"
      using bd(1) by (simp add: frac_le)
    finally show ?thesis .
  qed
  moreover have "(10::rat) powi (fn - (fd - 1)) = 10 powi fn / 10 powi (fd - 1)"
    by (rule power_int_diff) simp
  moreover have "fn - (fd - 1) = t + 1" by (simp add: t_def)
  ultimately have up: "a < 10 powi (t + 1)" by simp
  have "10 powi (fn - 1) / 10 powi fd < a"
  proof -
    have "10 powi (fn - 1) / 10 powi fd < 10 powi (fn - 1) / (of_int d :: rat)"
      using bd(2) dpos by (simp add: frac_less2)
    also have "\<dots> \<le> a"
      unfolding a using bn(1) dpos by (simp add: divide_right_mono)
    finally show ?thesis .
  qed
  moreover have "(10::rat) powi (fn - 1 - fd) = 10 powi (fn - 1) / 10 powi fd"
    by (rule power_int_diff) simp
  moreover have "fn - 1 - fd = t - 1" by (simp add: t_def)
  ultimately have lo: "10 powi (t - 1) < a" by simp
  have il: "ilog10 a = (if 10 powi t \<le> a then t else t - 1)"
    by (simp add: ilog10_def qd t_def fn_def fd_def)
  show ?thesis
  proof (cases "10 powi t \<le> a")
    case True
    with up il show ?thesis by simp
  next
    case False
    with lo il show ?thesis by simp
  qed
qed

lemma ilog10_unique:
  assumes "10 powi k \<le> a" "a < 10 powi (k + 1)"
  shows "ilog10 a = k"
proof -
  have "(0::rat) < 10 powi k" by simp
  with assms(1) have "0 < a" by linarith
  from ilog10_bounds [OF this] have b: "10 powi (ilog10 a) \<le> a" "a < 10 powi (ilog10 a + 1)" by auto
  have "(10::rat) powi k < 10 powi (ilog10 a + 1)" using assms(1) b(2) by simp
  then have 1: "k < ilog10 a + 1" by (simp only: powi10_less_iff)
  have "(10::rat) powi (ilog10 a) < 10 powi (k + 1)" using assms(2) b(1) by simp
  then have 2: "ilog10 a < k + 1" by (simp only: powi10_less_iff)
  from 1 2 show ?thesis by simp
qed

subsection \<open>Rounding powers of ten and large numbers\<close>

lemma round64_pow10:
  assumes "j \<le> 22"
  shows "round64 (10 ^ j) = Fin (10 ^ j)"
proof -
  have "(5::int) ^ j \<le> 5 ^ 22" using assms by (intro power_increasing) auto
  then have 1: "\<bar>(5::int) ^ j\<bar> < 2 ^ 53" by simp
  have "(10::rat) ^ j \<le> 10 ^ 22" using assms by (intro power_increasing) auto
  also have "\<dots> < 2 ^ 1024" by simp
  finally have 2: "(10::rat) ^ j < 2 ^ 1024" .
  have e: "(of_int (5 ^ j) :: rat) * 2 powi (int j) = 10 ^ j"
    by (simp add: power_mult_distrib [symmetric])
  have 3: "of_int \<bar>5 ^ j\<bar> * 2 powi (int j) < (2::rat) ^ 1024"
    using 2 e by simp
  from round64_exact [of "5 ^ j" "int j", OF _ 1 _ 3] show ?thesis
    unfolding e by simp
qed

lemma round_half_even_ge_floor: "\<lfloor>r\<rfloor> \<le> round_half_even r"
  by (simp add: round_half_even_def Let_def)

lemma round64_large:
  assumes q: "2 ^ 53 \<le> q" and r: "round64 q = Fin v"
  shows "2 ^ 53 \<le> v"
proof -
  have pos: "0 < q" using q by (rule less_le_trans [rotated]) simp
  from ilog2_bounds [OF pos] have b: "2 powi (ilog2 q) \<le> q" "q < 2 powi (ilog2 q + 1)" by auto
  define e where "e = ilog2 q"
  have "(2::rat) powi 53 < 2 powi (e + 1)" using q b(2) by (simp add: e_def)
  then have e: "53 \<le> e" by (simp only: powi2_less_iff)
  define u :: rat where "u = 2 powi (e - 52)"
  have upos: "0 < u" by (simp add: u_def)
  have "(2::rat) powi e = 2 powi (52 + (e - 52))" by simp
  also have "\<dots> = 2 powi 52 * 2 powi (e - 52)" by (rule power_int_add) simp
  finally have pe: "(2::rat) powi e = 2 ^ 52 * u" by (simp add: u_def)
  then have "2 ^ 52 * u \<le> q" using b(1) by (simp only: e_def)
  then have "(2::rat) ^ 52 \<le> q / u" using upos by (simp add: pos_le_divide_eq)
  then have "(of_int (2 ^ 52) :: rat) \<le> q / u" by simp
  then have "2 ^ 52 \<le> \<lfloor>q / u\<rfloor>" by (simp only: le_floor_iff)
  then have k: "2 ^ 52 \<le> round_half_even (q / u)"
    using round_half_even_ge_floor [of "q / u"] by linarith
  define w where "w = of_int (round_half_even (q / u)) * u"
  have "(of_int (2 ^ 52) :: rat) \<le> of_int (round_half_even (q / u))"
    using k by (simp only: of_int_le_iff)
  then have "(2::rat) ^ 52 \<le> of_int (round_half_even (q / u))" by simp
  then have "(2::rat) ^ 52 * u \<le> w"
    unfolding w_def using upos by (intro mult_right_mono) simp_all
  moreover have "(2::rat) ^ 53 \<le> 2 ^ 52 * u"
  proof -
    have "(2::rat) powi 53 \<le> 2 powi e" using e by (simp only: powi2_le_iff)
    then show ?thesis by (simp only: pe) simp
  qed
  ultimately have w: "2 ^ 53 \<le> w" by linarith
  have m: "max e (- 1022) = e" using e by simp
  have "round64 q = (if 2 ^ 1024 \<le> w then PInf else Fin w)"
    using pos w by (simp add: round64_def Let_def e_def [symmetric] m u_def [symmetric] w_def [symmetric])
  with r have "v = w" by (simp split: if_splits)
  with w show ?thesis by simp
qed

lemma round64_int_inj:
  assumes "round64 (of_int m) = Fin (of_int X)" "0 \<le> m" "X < 2 ^ 53"
  shows "m = X"
proof (cases "m < 2 ^ 53")
  case True
  with assms(2) have "\<bar>m\<bar> < 2 ^ 53" by simp
  from round64_of_int [OF this] assms(1) show ?thesis by simp
next
  case False
  then have "2 ^ 53 \<le> m" by simp
  then have "(of_int (2 ^ 53) :: rat) \<le> of_int m" by (simp only: of_int_le_iff)
  then have "(2::rat) ^ 53 \<le> of_int m" by simp
  from round64_large [OF this assms(1)] have "(2::rat) ^ 53 \<le> of_int X" .
  then have "(of_int (2 ^ 53) :: rat) \<le> of_int X" by simp
  then have "2 ^ 53 \<le> X" by (simp only: of_int_le_iff)
  with assms(3) show ?thesis by simp
qed

subsection \<open>The shortest digits of an integer\<close>

text \<open>
  For a positive integer that is a binary64 value and has \<open>n\<close> digits, \<open>n\<close> at most 21, the
  search ends with at most \<open>n\<close> digits: the integer itself is a candidate.  Its result
  is an integer of \<open>n\<close> digits that rounds to the given one.
\<close>

lemma shortest_integer:
  fixes X :: int and n k :: nat
  assumes X: "round64 (of_int X) = Fin (of_int X)"
    and n: "10 ^ (n - 1) \<le> X" "X < 10 ^ n" "1 \<le> n" "n \<le> 21"
    and k: "1 \<le> k" "k \<le> n" "n - k < fuel"
  shows "\<exists>s j. shortest fuel (int k) (of_int X) (int n) = (s, int n) \<and> 1 \<le> j \<and> j \<le> n
           \<and> 10 ^ (j - 1) \<le> s \<and> s < 10 ^ j
           \<and> round64 (of_int (s * 10 ^ (n - j))) = Fin (of_int X)"
  using k
proof (induction fuel arbitrary: k)
  case 0
  then show ?case by simp
next
  case (Suc fuel)
  define x :: rat where "x = of_int X"
  define sc :: rat where "sc = 10 powi (int n - int k)"
  define t where "t = x / sc"
  define lo where "lo = \<lfloor>t\<rfloor>"
  define hi where "hi = lo + 1"
  define oklo where "oklo = (round64 (of_int lo * sc) = Fin x)"
  define okhi where "okhi = (round64 (of_int hi * sc) = Fin x)"
  define c where "c = (oklo \<and> (\<not> okhi \<or> t - of_int lo < of_int hi - t
                      \<or> (t - of_int lo = of_int hi - t \<and> even lo)))"
  have eq: "shortest (Suc fuel) (int k) x (int n) =
      (if c then (lo, int n)
       else if okhi then (if hi = 10 ^ nat (int k) then (1, int n + 1) else (hi, int n))
       else shortest fuel (int k + 1) x (int n))"
    by (simp only: shortest.simps Let_def sc_def t_def lo_def hi_def oklo_def okhi_def c_def)
  have sc: "sc = 10 ^ (n - k)"
  proof -
    have "int n - int k = int (n - k)" using Suc.prems(2) by simp
    then show ?thesis unfolding sc_def by (simp only: power_int_of_nat)
  qed
  have scpos: "0 < sc" by (simp add: sc)
  have kk: "k = Suc (k - 1)" using Suc.prems(1) by simp
  have split: "(10::rat) ^ n = 10 ^ k * sc" "(10::rat) ^ (n - 1) = 10 ^ (k - 1) * sc"
  proof -
    have "n = k + (n - k)" using Suc.prems(2) by simp
    then have "(10::rat) ^ n = 10 ^ (k + (n - k))" by simp
    then show "(10::rat) ^ n = 10 ^ k * sc" by (simp only: power_add sc)
    have "n - 1 = (k - 1) + (n - k)" using Suc.prems(1,2) by simp
    then have "(10::rat) ^ (n - 1) = 10 ^ ((k - 1) + (n - k))" by simp
    then show "(10::rat) ^ (n - 1) = 10 ^ (k - 1) * sc" by (simp only: power_add sc)
  qed
  have xl: "(10::rat) ^ (n - 1) \<le> x"
  proof -
    have "(of_int (10 ^ (n - 1)) :: rat) \<le> of_int X" using n(1) by (simp only: of_int_le_iff)
    then show ?thesis by (simp add: x_def)
  qed
  have xu: "x < 10 ^ n"
  proof -
    have "(of_int X :: rat) < of_int (10 ^ n)" using n(2) by (simp only: of_int_less_iff)
    then show ?thesis by (simp add: x_def)
  qed
  have "10 ^ (k - 1) * sc \<le> x" using xl by (simp only: split(2))
  then have tl: "10 ^ (k - 1) \<le> t"
    unfolding t_def by (simp only: pos_le_divide_eq [OF scpos])
  have "x < 10 ^ k * sc" using xu by (simp only: split(1))
  then have tu: "t < 10 ^ k"
    unfolding t_def by (simp only: pos_divide_less_eq [OF scpos])
  have lol: "10 ^ (k - 1) \<le> lo"
  proof -
    have "(of_int (10 ^ (k - 1)) :: rat) \<le> t" using tl by simp
    then show ?thesis unfolding lo_def by (simp only: le_floor_iff)
  qed
  have lou: "lo < 10 ^ k"
  proof -
    have "t < of_int (10 ^ k)" using tu by simp
    then show ?thesis unfolding lo_def by (simp only: floor_less_iff)
  qed
  have cast: "\<And>s. (of_int (s * 10 ^ (n - k)) :: rat) = of_int s * sc"
    by (simp add: sc)
  show ?case
  proof (cases c)
    case True
    then have r: "shortest (Suc fuel) (int k) x (int n) = (lo, int n)"
      by (simp only: eq if_True)
    from True have oklo by (simp add: c_def)
    then have "round64 (of_int (lo * 10 ^ (n - k))) = Fin x"
      by (simp only: cast oklo_def)
    with r lol lou Suc.prems(1,2) show ?thesis
      unfolding x_def by blast
  next
    case c1: False
    show ?thesis
    proof (cases okhi)
      case True
      have ne: "hi \<noteq> 10 ^ k"
      proof
        assume h: "hi = 10 ^ k"
        have "of_int hi * sc = (10::rat) ^ n" by (simp add: h split(1))
        with True have "round64 (10 ^ n) = Fin x" by (simp add: okhi_def)
        moreover have "round64 (10 ^ n) = Fin (10 ^ n)" using n(4) by (intro round64_pow10) simp
        ultimately have "x = 10 ^ n" by simp
        with xu show False by simp
      qed
      then have r: "shortest (Suc fuel) (int k) x (int n) = (hi, int n)"
        using c1 True by (simp only: eq if_False if_True nat_int)
      have "round64 (of_int (hi * 10 ^ (n - k))) = Fin x"
        using True by (simp only: cast okhi_def)
      moreover have "10 ^ (k - 1) \<le> hi" "hi < 10 ^ k"
        using lol lou ne by (simp_all add: hi_def)
      ultimately show ?thesis
        using r Suc.prems(1,2) unfolding x_def by blast
    next
      case False
      have kn: "k < n"
      proof (rule ccontr)
        assume "\<not> k < n"
        with Suc.prems(2) have "k = n" by simp
        then have "sc = 1" by (simp add: sc)
        then have t: "t = of_int X" by (simp add: t_def x_def)
        then have lo: "lo = X" by (simp add: lo_def)
        have "oklo" using X by (simp add: oklo_def lo \<open>sc = 1\<close> x_def)
        moreover have "t - of_int lo < of_int hi - t" by (simp add: t lo hi_def)
        ultimately show False using c1 by (simp add: c_def)
      qed
      have r: "shortest (Suc fuel) (int k) x (int n) = shortest fuel (int (Suc k)) x (int n)"
        using c1 False by (simp only: eq if_False) (simp add: add.commute)
      have "\<exists>s j. shortest fuel (int (Suc k)) (of_int X) (int n) = (s, int n) \<and> 1 \<le> j \<and> j \<le> n
           \<and> 10 ^ (j - 1) \<le> s \<and> s < 10 ^ j
           \<and> round64 (of_int (s * 10 ^ (n - j))) = Fin (of_int X)"
        using kn Suc.prems(3) by (intro Suc.IH) simp_all
      then show ?thesis using r unfolding x_def by simp
    qed
  qed
qed

lemma digit_count:
  fixes X :: int
  assumes "0 < X"
  obtains n :: nat where "1 \<le> n" "10 ^ (n - 1) \<le> X" "X < 10 ^ n"
proof -
  have p: "0 < nat X" using assms by simp
  from floorlog_bounds [OF p, of 10]
  have 1: "10 ^ (floorlog 10 (nat X) - 1) \<le> nat X" and 2: "nat X < 10 ^ floorlog 10 (nat X)"
    by auto
  have "floorlog 10 (nat X) \<noteq> 0" using p by (simp add: floorlog_eq_zero_iff)
  then have f: "1 \<le> floorlog 10 (nat X)" by simp
  have "int (10 ^ (floorlog 10 (nat X) - 1)) \<le> int (nat X)" using 1 by (simp only: of_nat_le_iff)
  then have a: "10 ^ (floorlog 10 (nat X) - 1) \<le> X" using assms by simp
  have "int (nat X) < int (10 ^ floorlog 10 (nat X))" using 2 by (simp only: of_nat_less_iff)
  then have b: "X < 10 ^ floorlog 10 (nat X)" using assms by simp
  from f a b show ?thesis by (rule that)
qed

lemma ilog10_of_int:
  fixes X :: int and n :: nat
  assumes "1 \<le> n" "10 ^ (n - 1) \<le> X" "X < 10 ^ n"
  shows "ilog10 (of_int X) + 1 = int n"
proof -
  have "(of_int (10 ^ (n - 1)) :: rat) \<le> of_int X" using assms(2) by (simp only: of_int_le_iff)
  then have "(10::rat) ^ (n - 1) \<le> of_int X" by simp
  then have 1: "(10::rat) powi (int (n - 1)) \<le> of_int X" by (simp only: power_int_of_nat)
  have "(of_int X :: rat) < of_int (10 ^ n)" using assms(3) by (simp only: of_int_less_iff)
  then have "(of_int X :: rat) < 10 ^ n" by simp
  then have u: "(of_int X :: rat) < 10 powi (int n)" by (simp only: power_int_of_nat)
  have e: "int (n - 1) + 1 = int n" using assms(1) by simp
  have 2: "(of_int X :: rat) < 10 powi (int (n - 1) + 1)" unfolding e by (rule u)
  from ilog10_unique [OF 1 2] e show ?thesis by simp
qed

lemma render_digits_integer:
  fixes s :: int and j n :: nat
  assumes "1 \<le> j" "j \<le> n" "n \<le> 21" "10 ^ (j - 1) \<le> s" "s < 10 ^ j"
  shows "render_digits s (int n) = dec_digits (s * 10 ^ (n - j))"
proof -
  have l: "length (dec_digits s) = j" using assms(1,4,5) by (rule dec_digits_length)
  have "0 < (10::int) ^ (j - 1)" by simp
  with assms(4) have pos: "0 < s" by linarith
  have "render_digits s (int n) = dec_digits s @ replicate (n - j) (CHR ''0'')"
    using assms(2,3) by (simp add: render_digits_def Let_def l)
  also have "\<dots> = dec_digits (s * 10 ^ (n - j))"
    using dec_digits_times_pow10 [OF pos, of "n - j"] by simp
  finally show ?thesis .
qed

lemma js_toString_integer:
  fixes X :: int
  assumes "0 < X" "X < 10 ^ 21" and X: "round64 (of_int X) = Fin (of_int X)"
  shows "\<exists>m. 0 < m \<and> js_toString (Fin (of_int X)) = dec_digits m
           \<and> round64 (of_int m) = Fin (of_int X)"
proof -
  from assms(1) obtain n :: nat where n: "1 \<le> n" "10 ^ (n - 1) \<le> X" "X < 10 ^ n"
    by (rule digit_count)
  have "(10::int) ^ (n - 1) < 10 ^ 21" using n(2) assms(2) by linarith
  then have "n - 1 < 21" by (simp only: power_strict_increasing_iff) 
  then have n21: "n \<le> 21" by simp
  have il: "ilog10 (of_int X) + 1 = int n" using n by (rule ilog10_of_int)
  have fuel: "n - 1 < Suc 20" using n21 by simp
  from shortest_integer [OF X n(2,3,1) n21 order_refl n(1) fuel]
  obtain s j where sj: "shortest (Suc 20) (int 1) (of_int X) (int n) = (s, int n)"
    "1 \<le> j" "j \<le> n" "10 ^ (j - 1) \<le> s" "s < 10 ^ j"
    "round64 (of_int (s * 10 ^ (n - j))) = Fin (of_int X)" by blast
  have "0 < (10::int) ^ (j - 1)" by simp
  with sj(4) have "0 < s" by linarith
  then have pos: "0 < s * 10 ^ (n - j)" by simp
  have xa: "\<bar>of_int X :: rat\<bar> = of_int X" "(of_int X :: rat) \<noteq> 0" "\<not> (of_int X :: rat) < 0"
    using assms(1) by simp_all
  have "js_toString (Fin (of_int X)) = render_digits s (int n)"
    using sj(1) by (simp only: js_toString.simps xa il if_False) simp
  also have "\<dots> = dec_digits (s * 10 ^ (n - j))"
    using sj(2,3) n21 sj(4,5) by (rule render_digits_integer)
  finally show ?thesis using pos sj(6) by blast
qed

lemma js_toString_safe_integer:
  fixes X :: int
  assumes "0 < X" "X < 2 ^ 53"
  shows "js_toString (Fin (of_int X)) = dec_digits X"
proof -
  have "\<bar>X\<bar> < 2 ^ 53" using assms by simp
  then have r: "round64 (of_int X) = Fin (of_int X)" by (rule round64_of_int)
  have "X < 10 ^ 21" using assms(2) by simp
  from js_toString_integer [OF assms(1) this r]
  obtain m where m: "0 < m" "js_toString (Fin (of_int X)) = dec_digits m"
    "round64 (of_int m) = Fin (of_int X)" by blast
  from m(3) have "m = X" using m(1) assms(2) by (intro round64_int_inj) simp_all
  with m(2) show ?thesis by simp
qed

lemma dec_digits_0: "dec_digits 0 = ''0''"
  by (simp add: dec_digits_small digit_char_0)

lemma js_toString_minus:
  "0 < q \<Longrightarrow> js_toString (Fin (- q)) = ''-'' @ js_toString (Fin q)"
  by (simp split: prod.splits)

lemma round64_minus:
  assumes "round64 q = Fin v" "v \<noteq> 0"
  shows "round64 (- q) = Fin (- v)"
proof -
  have q: "q \<noteq> 0" using assms by (auto simp: round64_def)
  define w where "w = of_int (round_half_even (\<bar>q\<bar> / 2 powi (max (ilog2 \<bar>q\<bar>) (- 1022) - 52)))
      * (2::rat) powi (max (ilog2 \<bar>q\<bar>) (- 1022) - 52)"
  have 1: "round64 q = (if 2 ^ 1024 \<le> w then (if q < 0 then NInf else PInf)
        else if w = 0 then (if q < 0 then NZero else Fin 0)
        else Fin (if q < 0 then - w else w))"
    using q by (simp only: round64_def Let_def w_def if_False)
  have 2: "round64 (- q) = (if 2 ^ 1024 \<le> w then (if - q < 0 then NInf else PInf)
        else if w = 0 then (if - q < 0 then NZero else Fin 0)
        else Fin (if - q < 0 then - w else w))"
    using q by (simp only: round64_def Let_def w_def abs_minus_cancel neg_equal_0_iff_equal if_False)
  from assms 1 have w: "\<not> 2 ^ 1024 \<le> w" "w \<noteq> 0" "v = (if q < 0 then - w else w)"
    by (auto split: if_splits)
  show ?thesis using q by (simp only: 2 w if_False) auto
qed

lemma js_toString_int_string:
  assumes "\<bar>i\<bar> < 2 ^ 53"
  shows "js_toString (Fin (of_int i)) = int_string i"
proof -
  consider "i = 0" | "0 < i" | "i < 0" by linarith
  then show ?thesis
  proof cases
    case 1
    then show ?thesis by (simp add: int_string_def dec_digits_0)
  next
    case 2
    with assms have "i < 2 ^ 53" by simp
    from js_toString_safe_integer [OF 2 this] 2 show ?thesis by (simp add: int_string_def)
  next
    case 3
    with assms have b: "0 < - i" "- i < 2 ^ 53" by simp_all
    have "js_toString (Fin (of_int i)) = js_toString (Fin (- of_int (- i)))" by simp
    also have "\<dots> = ''-'' @ js_toString (Fin (of_int (- i)))"
      using b(1) by (intro js_toString_minus) simp
    also have "\<dots> = ''-'' @ dec_digits (- i)"
      using js_toString_safe_integer [OF b] by simp
    finally show ?thesis using 3 by (simp add: int_string_def)
  qed
qed

lemma js_toString_int_readback:
  assumes "\<bar>i\<bar> < 10 ^ 21" and r: "round64 (of_int i) = Fin (of_int i)"
  shows "\<exists>m. js_toString (Fin (of_int i)) = int_string m \<and> round64 (of_int m) = Fin (of_int i)"
proof -
  consider "i = 0" | "0 < i" | "i < 0" by linarith
  then show ?thesis
  proof cases
    case 1
    have "js_toString (Fin (of_int i)) = int_string 0 \<and> round64 (of_int 0) = Fin (of_int i)"
      using 1 by (simp add: int_string_def dec_digits_0)
    then show ?thesis by blast
  next
    case 2
    with assms have "i < 10 ^ 21" by simp
    from js_toString_integer [OF 2 this r]
    obtain m where m: "0 < m" "js_toString (Fin (of_int i)) = dec_digits m"
      "round64 (of_int m) = Fin (of_int i)" by blast
    then have "js_toString (Fin (of_int i)) = int_string m" by (simp add: int_string_def)
    with m(3) show ?thesis by blast
  next
    case 3
    with assms have b: "0 < - i" "- i < 10 ^ 21" by simp_all
    have "round64 (- of_int i) = Fin (- of_int i)" using r 3 by (intro round64_minus) simp_all
    then have r': "round64 (of_int (- i)) = Fin (of_int (- i))" by simp
    from js_toString_integer [OF b r']
    obtain m where m: "0 < m" "js_toString (Fin (of_int (- i))) = dec_digits m"
      "round64 (of_int m) = Fin (of_int (- i))" by blast
    have "js_toString (Fin (of_int i)) = js_toString (Fin (- of_int (- i)))" by simp
    also have "\<dots> = ''-'' @ js_toString (Fin (of_int (- i)))"
      using b(1) by (intro js_toString_minus) simp
    also have "\<dots> = int_string (- m)" using m(1,2) by (simp add: int_string_def)
    finally have 1: "js_toString (Fin (of_int i)) = int_string (- m)" .
    have "round64 (- of_int m) = Fin (- of_int (- i))"
      using m(3) 3 by (intro round64_minus) simp_all
    then have "round64 (of_int (- m)) = Fin (of_int i)" by simp
    with 1 show ?thesis by blast
  qed
qed

lemma js_toString_js_round:
  assumes "js_isFinite n"
  shows "js_toString (js_round n) = js_toString (Fin (of_int \<lfloor>js_val n + 1 / 2\<rfloor>))"
proof (cases n)
  case (Fin q)
  consider "is_int q" | "\<not> is_int q" "0 < q" "q < 1 / 2" | "\<not> is_int q" "q < 0" "- (1 / 2) \<le> q"
    | "\<not> is_int q" "\<not> (0 < q \<and> q < 1 / 2)" "\<not> (q < 0 \<and> - (1 / 2) \<le> q)" by blast
  then show ?thesis
  proof cases
    case 1
    then have "q = of_int \<lfloor>q\<rfloor>" by (simp add: is_int_def)
    then obtain z where z: "q = of_int z" ..
    have "\<lfloor>(of_int z :: rat) + 1 / 2\<rfloor> = z" by (simp add: floor_unique)
    then show ?thesis using 1 Fin z by (simp del: js_toString.simps)
  next
    case 2
    then have "\<lfloor>q + 1 / 2\<rfloor> = 0" by (intro floor_unique) simp_all
    then show ?thesis using 2 Fin by simp
  next
    case 3
    then have "\<lfloor>q + 1 / 2\<rfloor> = 0" by (intro floor_unique) simp_all
    then show ?thesis using 3 Fin by simp
  next
    case 4
    then have "js_round (Fin q) = Fin (of_int \<lfloor>q + 1 / 2\<rfloor>)"
      by (simp only: js_round.simps if_False)
    then show ?thesis using Fin by (simp only: js_val.simps)
  qed
next
  case NZero
  have "\<lfloor>(0::rat) + 1 / 2\<rfloor> = 0" by (intro floor_unique) simp_all
  then show ?thesis using NZero by (simp del: js_toString.simps) simp
next
  case NaN
  with assms show ?thesis by (simp add: js_isFinite_def)
next
  case PInf
  with assms show ?thesis by (simp add: js_isFinite_def)
next
  case NInf
  with assms show ?thesis by (simp add: js_isFinite_def)
qed

subsection \<open>Fixed notation and the removal of zeros\<close>

lemma length_fixed_digits: "length (fixed_digits f r) = f"
  by (induction f arbitrary: r) simp_all

lemma fixed_digits_0: "fixed_digits f 0 = replicate f (CHR ''0'')"
  by (induction f) (simp_all add: digit_char_0 replicate_append_same)

lemma digit_char_not_point: "0 \<le> d \<Longrightarrow> d < 10 \<Longrightarrow> digit_char d \<noteq> CHR ''.''"
  using digit_char_code [of d] by auto

lemma fixed_digits_no_point: "CHR ''.'' \<notin> set (fixed_digits f r)"
proof (induction f arbitrary: r)
  case 0
  show ?case by simp
next
  case (Suc f)
  have "digit_char (r mod 10) \<noteq> CHR ''.''" by (intro digit_char_not_point) simp_all
  with Suc show ?case by simp
qed

lemma dec_digits_step: "10 \<le> n \<Longrightarrow> dec_digits n = dec_digits (n div 10) @ [digit_char (n mod 10)]"
  by (simp add: dec_digits.simps [of n])

lemma fixed_digits_small:
  "0 < N \<Longrightarrow> N < 10 ^ f \<Longrightarrow>
     fixed_digits f N = replicate (f - length (dec_digits N)) (CHR ''0'') @ dec_digits N"
proof (induction f arbitrary: N)
  case 0
  then show ?case by simp
next
  case (Suc f)
  show ?case
  proof (cases "N < 10")
    case True
    with Suc.prems have "N div 10 = 0" "N mod 10 = N" by simp_all
    then show ?thesis using True Suc.prems
      by (simp add: fixed_digits_0 dec_digits_small)
  next
    case False
    then have d: "0 < N div 10" by simp
    from Suc.prems have u: "N div 10 < 10 ^ f" by simp
    have s: "dec_digits N = dec_digits (N div 10) @ [digit_char (N mod 10)]"
      using False by (intro dec_digits_step) simp
    from Suc.IH [OF d u] show ?thesis by (simp add: s)
  qed
qed

lemma dec_digits_split:
  "10 ^ f \<le> N \<Longrightarrow> dec_digits N = dec_digits (N div 10 ^ f) @ fixed_digits f (N mod 10 ^ f)"
proof (induction f arbitrary: N)
  case 0
  show ?case by simp
next
  case (Suc f)
  have "(10::int) \<le> 10 ^ Suc f" by simp
  with Suc.prems have ten: "10 \<le> N" by linarith
  from Suc.prems have d: "10 ^ f \<le> N div 10" by simp
  have 1: "N div 10 div 10 ^ f = N div 10 ^ Suc f"
    by (simp add: zdiv_zmult2_eq)
  have m: "N mod 10 ^ Suc f = 10 * (N div 10 mod 10 ^ f) + N mod 10"
    by (simp add: zmod_zmult2_eq)
  have 2: "N mod 10 ^ Suc f div 10 = N div 10 mod 10 ^ f" unfolding m by simp
  have 3: "N mod 10 ^ Suc f mod 10 = N mod 10" unfolding m by simp
  have "dec_digits N = dec_digits (N div 10) @ [digit_char (N mod 10)]"
    using ten by (rule dec_digits_step)
  also have "dec_digits (N div 10) =
      dec_digits (N div 10 div 10 ^ f) @ fixed_digits f (N div 10 mod 10 ^ f)"
    using d by (rule Suc.IH)
  finally show ?case by (simp only: 1 2 3 fixed_digits.simps append_assoc)
qed

lemma dec_digits_short:
  assumes "0 \<le> N" "N < 10 ^ f" "1 \<le> f"
  shows "length (dec_digits N) \<le> f"
proof (cases "N = 0")
  case True
  with assms(3) show ?thesis by (simp add: dec_digits_0)
next
  case False
  with assms(1) have "0 < N" by simp
  then obtain k :: nat where k: "1 \<le> k" "10 ^ (k - 1) \<le> N" "N < 10 ^ k" by (rule digit_count)
  have "(10::int) ^ (k - 1) < 10 ^ f" using k(2) assms(2) by linarith
  then have "k - 1 < f" by (simp only: power_strict_increasing_iff)
  moreover have "length (dec_digits N) = k" using k by (rule dec_digits_length)
  ultimately show ?thesis by simp
qed

lemma dec_digits_long:
  assumes "10 ^ f \<le> N"
  shows "f < length (dec_digits N)"
proof -
  have "0 < (10::int) ^ f" by simp
  with assms have "0 < N" by linarith
  then obtain k :: nat where k: "1 \<le> k" "10 ^ (k - 1) \<le> N" "N < 10 ^ k" by (rule digit_count)
  have "(10::int) ^ f < 10 ^ k" using k(3) assms by linarith
  then have "f < k" by (simp only: power_strict_increasing_iff)
  moreover have "length (dec_digits N) = k" using k by (rule dec_digits_length)
  ultimately show ?thesis by simp
qed

lemma fixed_split:
  fixes N :: int and f :: nat
  assumes N: "0 \<le> N" and f: "1 \<le> f"
    and m': "m' = (if length (dec_digits N) \<le> f
                  then replicate (f + 1 - length (dec_digits N)) (CHR ''0'') @ dec_digits N
                  else dec_digits N)"
  shows "take (length m' - f) m' = dec_digits (N div 10 ^ f)"
    and "drop (length m' - f) m' = fixed_digits f (N mod 10 ^ f)"
proof -
  have "take (length m' - f) m' = dec_digits (N div 10 ^ f)
      \<and> drop (length m' - f) m' = fixed_digits f (N mod 10 ^ f)"
  proof (cases "N < 10 ^ f")
    case True
    define l where "l = length (dec_digits N)"
    have l: "l \<le> f" unfolding l_def using N True f by (rule dec_digits_short)
    have l1: "1 \<le> l" unfolding l_def using dec_digits_nonempty [of N] by (cases "dec_digits N") simp_all
    have r: "f + 1 - l = Suc (f - l)" using l by simp
    have e: "m' = CHR ''0'' # replicate (f - l) (CHR ''0'') @ dec_digits N"
      using l by (simp add: m' l_def [symmetric] Suc_diff_le)
    have len: "length m' - f = 1" using l by (simp add: e l_def [symmetric])
    have dm: "N div 10 ^ f = 0" "N mod 10 ^ f = N" using N True by simp_all
    have "replicate (f - l) (CHR ''0'') @ dec_digits N = fixed_digits f N"
    proof (cases "N = 0")
      case True
      have "replicate (f - 1) (CHR ''0'') @ ''0'' = replicate (Suc (f - 1)) (CHR ''0'')"
        by (simp add: replicate_append_same)
      then show ?thesis using True f by (simp add: l_def dec_digits_0 fixed_digits_0)
    next
      case False
      with N have "0 < N" by simp
      from fixed_digits_small [OF this True] show ?thesis by (simp add: l_def)
    qed
    then have e2: "m' = CHR ''0'' # fixed_digits f N" by (simp add: e)
    show ?thesis unfolding len by (simp add: e2 dm dec_digits_0)
  next
    case False
    then have ge: "10 ^ f \<le> N" by simp
    then have "f < length (dec_digits N)" by (rule dec_digits_long)
    then have e: "m' = dec_digits N" by (simp add: m')
    have s: "dec_digits N = dec_digits (N div 10 ^ f) @ fixed_digits f (N mod 10 ^ f)"
      using ge by (rule dec_digits_split)
    have len: "length m' - f = length (dec_digits (N div 10 ^ f))"
      unfolding e by (subst s) (simp add: length_fixed_digits)
    show ?thesis unfolding len unfolding e by (subst s, subst s) simp
  qed
  then show "take (length m' - f) m' = dec_digits (N div 10 ^ f)"
    and "drop (length m' - f) m' = fixed_digits f (N mod 10 ^ f)" by simp_all
qed

lemma js_toFixed_std:
  assumes fin: "js_isFinite x" and b: "\<bar>js_val x\<bar> < 10 ^ 21" and f: "1 \<le> f"
  shows "js_toFixed f x = (if js_val x < 0 then ''-'' else []) @ std_fixed f \<bar>js_val x\<bar>"
proof -
  define a where "a = \<bar>js_val x\<bar>"
  define N where "N = \<lfloor>a * 10 ^ f + 1 / 2\<rfloor>"
  define m' where "m' = (if length (dec_digits N) \<le> f
                  then replicate (f + 1 - length (dec_digits N)) (CHR ''0'') @ dec_digits N
                  else dec_digits N)"
  have "0 \<le> a * 10 ^ f + 1 / 2" by (simp add: a_def)
  then have N: "0 \<le> N" unfolding N_def by simp
  have m: "(if N = 0 then ''0'' else dec_digits N) = dec_digits N" by (simp add: dec_digits_0)
  have "js_toFixed f x = (if js_val x < 0 then ''-'' else [])
      @ take (length m' - f) m' @ ''.'' @ drop (length m' - f) m'"
    using fin b f
    by (simp only: js_toFixed_def Let_def a_def [symmetric] N_def [symmetric] m m'_def [symmetric])
      (simp add: a_def)
  also have "take (length m' - f) m' = dec_digits (N div 10 ^ f)"
    using N f m'_def by (rule fixed_split(1))
  also have "drop (length m' - f) m' = fixed_digits f (N mod 10 ^ f)"
    using N f m'_def by (rule fixed_split(2))
  finally show ?thesis by (simp add: std_fixed_def Let_def a_def N_def)
qed

lemma strip_zeros_append:
  "\<not> list_all (\<lambda>d. d = CHR ''0'') s \<Longrightarrow> strip_zeros (p @ s) = p @ strip_zeros s"
proof (induction p)
  case Nil
  show ?case by simp
next
  case (Cons c p)
  have "\<not> list_all (\<lambda>d. d = CHR ''0'') (p @ s)" using Cons.prems by simp
  then have "\<not> zeros_to_end (c # p @ s)" by (auto simp: zeros_to_end_def)
  with Cons show ?case by simp
qed

lemma strip_zeros_replicate: "strip_zeros (replicate j (CHR ''0'')) = []"
  by (cases j) (simp_all add: zeros_to_end_def list_all_iff)

lemma strip_zeros_point:
  assumes "f \<noteq> []" "CHR ''.'' \<notin> set f"
  shows "strip_zeros (a @ ''.'' @ f) = std_strip (a @ ''.'' @ f)"
proof -
  define z where "z = takeWhile (\<lambda>c. c = CHR ''0'') (rev f)"
  define g where "g = rev (dropWhile (\<lambda>c. c = CHR ''0'') (rev f))"
  have fz: "f = g @ rev z"
    unfolding g_def z_def rev_append [symmetric] by simp
  have zz: "\<forall>c\<in>set (rev z). c = CHR ''0''"
    unfolding z_def using set_takeWhileD [of _ "\<lambda>c. c = CHR ''0''" "rev f"] by auto
  have zr: "rev z = replicate (length z) (CHR ''0'')"
    using replicate_length_same [of "rev z" "CHR ''0''"] zz by simp
  have dz: "\<And>t. dropWhile (\<lambda>c. c = CHR ''0'') (z @ t) = dropWhile (\<lambda>c. c = CHR ''0'') t"
    using zz by (intro dropWhile_append2) simp
  show ?thesis
  proof (cases "g = []")
    case True
    with fz assms(1) have z: "z \<noteq> []" "f = rev z" by simp_all
    have "\<not> list_all (\<lambda>d. d = CHR ''0'') (''.'' @ rev z)" by simp
    then have "strip_zeros (a @ ''.'' @ rev z) = a @ strip_zeros (''.'' @ rev z)"
      by (rule strip_zeros_append)
    also have "zeros_to_end (''.'' @ rev z)"
      using z(1) zz by (simp add: zeros_to_end_def list_all_iff)
    then have "strip_zeros (''.'' @ rev z) = []" by simp
    finally have 1: "strip_zeros (a @ ''.'' @ f) = a" by (simp add: z(2))
    have "std_strip (a @ ''.'' @ f) = a"
      by (simp add: std_strip_def z(2) dz)
    with 1 show ?thesis by simp
  next
    case False
    then have gl: "g = butlast g @ [last g]" by simp
    have "dropWhile (\<lambda>c. c = CHR ''0'') (rev f) \<noteq> []" using False by (simp add: g_def)
    then have "\<not> hd (dropWhile (\<lambda>c. c = CHR ''0'') (rev f)) = CHR ''0''"
      by (rule hd_dropWhile)
    then have l0: "last g \<noteq> CHR ''0''"
      using False by (simp add: g_def last_rev)
    have "last g \<in> set f" using False fz by (metis last_in_set Un_iff set_append)
    with assms(2) have lp: "last g \<noteq> CHR ''.''" by auto
    have "\<not> list_all (\<lambda>d. d = CHR ''0'') (last g # rev z)" using l0 by simp
    then have "strip_zeros ((a @ ''.'' @ butlast g) @ last g # rev z)
        = (a @ ''.'' @ butlast g) @ strip_zeros (last g # rev z)"
      by (rule strip_zeros_append)
    also have "\<not> zeros_to_end (last g # rev z)" using l0 lp by (simp add: zeros_to_end_def)
    then have "strip_zeros (last g # rev z) = last g # strip_zeros (rev z)" by simp
    also have "strip_zeros (rev z) = []" by (subst zr) (rule strip_zeros_replicate)
    finally have "strip_zeros (a @ ''.'' @ butlast g @ [last g] @ rev z) = a @ ''.'' @ butlast g @ [last g]"
      by simp
    then have 1: "strip_zeros (a @ ''.'' @ f) = a @ ''.'' @ g"
      using gl fz by (metis append_assoc)
    have "dropWhile (\<lambda>c. c = CHR ''0'') (rev (a @ ''.'' @ f))
        = dropWhile (\<lambda>c. c = CHR ''0'') (rev g @ rev (a @ ''.''))"
      by (subst fz) (simp add: dz)
    also have "\<dots> = rev g @ rev (a @ ''.'')"
      using False l0 by (cases "rev g") (simp_all add: last_rev [symmetric] del: last_rev)
    finally have "std_strip (a @ ''.'' @ f) = a @ ''.'' @ g"
      using False lp by (simp add: std_strip_def)
    with 1 show ?thesis by simp
  qed
qed

subsection \<open>Formatting\<close>

lemma formatNumber_near:
  assumes "js_isFinite n" "near_integer n"
  shows "formatNumber n = js_toString (Fin (of_int (nearest n)))"
  using assms js_toString_js_round [OF assms(1)]
  by (simp only: formatNumber_def near_integer_def nearest_def not_True_eq_False if_False if_True)

lemma formatNumber_far:
  assumes "js_isFinite n" "\<not> near_integer n" "\<bar>js_val n\<bar> < 10 ^ 21"
  shows "formatNumber n = std_strip ((if js_val n < 0 then ''-'' else []) @ std_fixed 12 \<bar>js_val n\<bar>)"
proof -
  define sg where "sg = (if js_val n < 0 then ''-'' else [])"
  define N where "N = \<lfloor>\<bar>js_val n\<bar> * 10 ^ 12 + 1 / 2\<rfloor>"
  have "formatNumber n = strip_zeros (js_toFixed 12 n)"
    using assms(1,2) by (simp only: formatNumber_def near_integer_def not_True_eq_False if_False)
  also have "js_toFixed 12 n = sg @ std_fixed 12 \<bar>js_val n\<bar>"
    unfolding sg_def using assms(1,3) by (intro js_toFixed_std) simp_all
  also have "sg @ std_fixed 12 \<bar>js_val n\<bar>
      = (sg @ dec_digits (N div 10 ^ 12)) @ ''.'' @ fixed_digits 12 (N mod 10 ^ 12)"
    by (simp only: std_fixed_def Let_def N_def append_assoc)
  also have "strip_zeros \<dots> = std_strip \<dots>"
  proof (rule strip_zeros_point)
    have "length (fixed_digits 12 (N mod 10 ^ 12)) = 12" by (rule length_fixed_digits)
    then show "fixed_digits 12 (N mod 10 ^ 12) \<noteq> []" by auto
    show "CHR ''.'' \<notin> set (fixed_digits 12 (N mod 10 ^ 12))" by (rule fixed_digits_no_point)
  qed
  also have "(sg @ dec_digits (N div 10 ^ 12)) @ ''.'' @ fixed_digits 12 (N mod 10 ^ 12)
      = sg @ std_fixed 12 \<bar>js_val n\<bar>"
    by (simp only: std_fixed_def Let_def N_def append_assoc)
  finally show ?thesis by (simp only: sg_def)
qed

lemma js_1e_12_pos: "js_lt (Fin 0) js_1e_12"
  by (simp add: js_lt_def js_1e_12_value)

lemma near_integer_int: "is_int q \<Longrightarrow> near_integer (Fin q)"
  using js_1e_12_pos by (simp add: near_integer_def js_sub_def js_add_def js_isInf_def)

lemma nearest_of_int: "nearest (Fin (of_int i)) = i"
  unfolding nearest_def by (simp add: floor_unique)

lemma formatNumber_of_int:
  assumes "\<bar>i\<bar> < 2 ^ 53"
  shows "formatNumber (Fin (of_int i)) = int_string i"
proof -
  have "is_int (of_int i)" by (simp add: is_int_def)
  then have "near_integer (Fin (of_int i))" by (rule near_integer_int)
  moreover have "js_isFinite (Fin (of_int i))" by (simp add: js_isFinite_def)
  ultimately have "formatNumber (Fin (of_int i)) = js_toString (Fin (of_int (nearest (Fin (of_int i)))))"
    by (intro formatNumber_near)
  then show ?thesis using assms by (simp only: nearest_of_int js_toString_int_string)
qed

lemma js_Number_4: "js_Number ''4'' = Fin 4"
  by (simp add: number_text_defs char_class_defs)

lemma dec_digits_4: "dec_digits 4 = ''4''"
  by (simp add: dec_digits_small digit_char_def char_of_eq_iff)

lemma formatNumber_4: "formatNumber (js_Number ''4'') = ''4''"
  using formatNumber_of_int [of 4] by (simp add: js_Number_4 int_string_def dec_digits_4)

lemma digit_char_simps:
  "digit_char 0 = CHR ''0''" "digit_char 1 = CHR ''1''" "digit_char 2 = CHR ''2''"
  "digit_char 3 = CHR ''3''" "digit_char 4 = CHR ''4''" "digit_char 5 = CHR ''5''"
  "digit_char 6 = CHR ''6''" "digit_char 7 = CHR ''7''" "digit_char 8 = CHR ''8''"
  "digit_char 9 = CHR ''9''"
  by (simp_all add: digit_char_def char_of_eq_iff)

lemma fixed_digits_numeral:
  "fixed_digits (numeral k) r = fixed_digits (pred_numeral k) (r div 10) @ [digit_char (r mod 10)]"
  by (simp add: numeral_eq_Suc)

lemma round64_neg_quarter: "round64 (- (1 / 4)) = Fin (- (1 / 4))"
  using round64_exact [of "- 1" "- 2"] by (simp add: power_int_minus)

lemma floor_neg_quarters: "\<lfloor>- (5 / 4) :: rat\<rfloor> = - 2" "\<lfloor>- (3 / 4) :: rat\<rfloor> = - 1"
  by (simp_all add: floor_unique)

lemma not_near_integer_5_4: "\<not> near_integer (Fin (- (5 / 4)))"
proof -
  have "\<not> is_int (- (5 / 4))" by (simp add: is_int_def floor_neg_quarters(1))
  then have r: "js_round (Fin (- (5 / 4))) = Fin (- 1)"
    using floor_neg_quarters(2) by simp
  have "(- (5 / 4) :: rat) + 1 = - (1 / 4)" by simp
  then have s: "js_sub (Fin (- (5 / 4))) (Fin (- 1)) = Fin (- (1 / 4))"
    by (simp add: js_sub_def js_add_def js_isInf_def round64_neg_quarter)
  show ?thesis
    unfolding near_integer_def r s by (simp add: js_lt_def js_1e_12_value)
qed

lemma floor_5_4: "\<lfloor>(5 / 4 :: rat) * 10 ^ 12 + 1 / 2\<rfloor> = 1250000000000"
  by (simp add: floor_unique)

lemma fixed_digits_25: "fixed_digits 12 250000000000 = ''250000000000''"
  by (simp add: fixed_digits_numeral digit_char_simps)

lemma std_fixed_5_4: "std_fixed 12 (5 / 4) = ''1.250000000000''"
  unfolding std_fixed_def Let_def floor_5_4
  by (simp add: fixed_digits_25 digit_char_simps dec_digits_small)

lemma std_strip_5_4: "std_strip ''-1.250000000000'' = ''-1.25''"
  by (simp add: std_strip_def)

lemma round64_2_60: "round64 1152921504606846976 = Fin 1152921504606846976"
  using round64_exact [of 1 60] by simp

lemma int_string_7: "int_string 7 = ''7''"
  by (simp add: int_string_def dec_digits_small digit_char_simps)

lemma round64_near_1e21:
  "round64 1000000000000000000000 = Fin 1000000000000000000000"
  "round64 2000000000000000000000 = Fin 2000000000000000000000"
  "round64 1500000000000000000000 = Fin 1500000000000000000000"
  "round64 1600000000000000000000 = Fin 1600000000000000000000"
  using round64_exact [of 476837158203125 21] round64_exact [of 476837158203125 22]
    round64_exact [of 1430511474609375 20] round64_exact [of 1525878906250000 20]
  by simp_all

lemma ilog10_15e20: "ilog10 1500000000000000000000 = 21"
  by (rule ilog10_unique) simp_all

lemma shortest_numeral: "shortest (numeral k) = shortest (Suc (pred_numeral k))"
  by (simp add: numeral_eq_Suc)

lemma shortest_15e20: "shortest (Suc 20) 1 1500000000000000000000 22 = (15, 22)"
proof -
  have f: "\<lfloor>3 / 2 :: rat\<rfloor> = 1" by (simp add: floor_unique)
  have 1: "shortest (Suc 20) 1 1500000000000000000000 22 = shortest 20 2 1500000000000000000000 22"
    by (simp add: Let_def f round64_near_1e21 del: Suc_numeral)
  have 2: "shortest 20 2 1500000000000000000000 22 = (15, 22)"
    by (simp add: shortest_numeral Let_def round64_near_1e21 del: Suc_numeral)
  from 1 2 show ?thesis by simp
qed

lemma render_digits_15: "render_digits 15 22 = ''1.5e+21''"
proof -
  have "dec_digits 15 = ''15''" "dec_digits 21 = ''21''"
    by (simp_all add: dec_digits.simps [of 15] dec_digits.simps [of 21] dec_digits_small
        digit_char_simps)
  then show ?thesis by (simp add: render_digits_def Let_def)
qed

text \<open>
  Claim C8, as amended.  \<open>formatNumber\<close> returns \<open>Error\<close> for every number that is not
  finite.  For a finite number that passes the test \<open>Math.abs(n - Math.round(n)) < 1e-12\<close>,
  with nearest integer \<open>i\<close>: when \<open>i\<close> is below \<open>2 ^ 53\<close> in magnitude the result is the
  decimal numeral of \<open>i\<close>, without a fractional part; when \<open>i\<close> is a binary64 value below
  \<open>10 ^ 21\<close> in magnitude the result is the decimal numeral of an integer that reads back
  as \<open>i\<close>.  For a finite number below \<open>10 ^ 21\<close> in magnitude that fails the test, the result
  is the number rounded to 12 fractional digits, without the zeros at its end, and without
  the point when all of them are removed.  The format of an integer below \<open>2 ^ 53\<close> in
  magnitude is its numeral, so the number read from \<open>4\<close> is formatted as \<open>4\<close>.
\<close>

theorem formatNumber_cases:
  "(\<not> js_isFinite n \<longrightarrow> formatNumber n = ''Error'')
   \<and> (js_isFinite n \<and> near_integer n \<longrightarrow>
        (\<bar>nearest n\<bar> < 2 ^ 53 \<longrightarrow> formatNumber n = int_string (nearest n))
        \<and> (\<bar>nearest n\<bar> < 10 ^ 21 \<and> round64 (of_int (nearest n)) = Fin (of_int (nearest n)) \<longrightarrow>
             (\<exists>m. formatNumber n = int_string m
                  \<and> round64 (of_int m) = Fin (of_int (nearest n)))))
   \<and> (js_isFinite n \<and> \<not> near_integer n \<and> \<bar>js_val n\<bar> < 10 ^ 21 \<longrightarrow>
        formatNumber n
          = std_strip ((if js_val n < 0 then ''-'' else []) @ std_fixed 12 \<bar>js_val n\<bar>))
   \<and> (\<bar>i\<bar> < 2 ^ 53 \<longrightarrow> formatNumber (Fin (of_int i)) = int_string i)
   \<and> formatNumber (js_Number ''4'') = ''4''"
proof (intro conjI impI)
  assume "\<not> js_isFinite n"
  then show "formatNumber n = ''Error''" by (simp add: formatNumber_def)
next
  assume a: "js_isFinite n \<and> near_integer n" and b: "\<bar>nearest n\<bar> < 2 ^ 53"
  from a have "formatNumber n = js_toString (Fin (of_int (nearest n)))"
    by (intro formatNumber_near) simp_all
  with b show "formatNumber n = int_string (nearest n)"
    by (simp only: js_toString_int_string)
next
  assume a: "js_isFinite n \<and> near_integer n"
    and b: "\<bar>nearest n\<bar> < 10 ^ 21 \<and> round64 (of_int (nearest n)) = Fin (of_int (nearest n))"
  from a have "formatNumber n = js_toString (Fin (of_int (nearest n)))"
    by (intro formatNumber_near) simp_all
  moreover from b have "\<exists>m. js_toString (Fin (of_int (nearest n))) = int_string m
      \<and> round64 (of_int m) = Fin (of_int (nearest n))"
    by (intro js_toString_int_readback) simp_all
  ultimately show "\<exists>m. formatNumber n = int_string m
      \<and> round64 (of_int m) = Fin (of_int (nearest n))" by simp
next
  assume "js_isFinite n \<and> \<not> near_integer n \<and> \<bar>js_val n\<bar> < 10 ^ 21"
  then show "formatNumber n
      = std_strip ((if js_val n < 0 then ''-'' else []) @ std_fixed 12 \<bar>js_val n\<bar>)"
    by (intro formatNumber_far) simp_all
next
  assume "\<bar>i\<bar> < 2 ^ 53"
  then show "formatNumber (Fin (of_int i)) = int_string i" by (rule formatNumber_of_int)
next
  show "formatNumber (js_Number ''4'') = ''4''" by (rule formatNumber_4)
qed

theorem formatNumber_cases_witness:
  "formatNumber NaN = ''Error''
   \<and> js_isFinite (Fin 7) \<and> near_integer (Fin 7) \<and> formatNumber (Fin 7) = ''7''
   \<and> (\<exists>m. formatNumber (Fin 1152921504606846976) = int_string m
          \<and> round64 (of_int m) = Fin 1152921504606846976)
   \<and> \<not> near_integer (Fin (- (5 / 4))) \<and> formatNumber (Fin (- (5 / 4))) = ''-1.25''
   \<and> formatNumber (Fin (- 12)) = ''-12''
   \<and> formatNumber (js_Number ''4'') = ''4''"
proof -
  have 1: "formatNumber NaN = ''Error''"
    using formatNumber_cases [of NaN] by (simp add: js_isFinite_def)
  have f7: "js_isFinite (Fin 7)" by (simp add: js_isFinite_def)
  have n7: "near_integer (Fin 7)" by (rule near_integer_int) (simp add: is_int_def)
  have v7: "nearest (Fin 7) = 7" using nearest_of_int [of 7] by simp
  have 2: "formatNumber (Fin 7) = ''7''"
    using formatNumber_cases [of "Fin 7"] f7 n7 by (simp add: v7 int_string_7)
  have fb: "js_isFinite (Fin 1152921504606846976)" by (simp add: js_isFinite_def)
  have nb: "near_integer (Fin 1152921504606846976)"
    by (rule near_integer_int) (simp add: is_int_def)
  have vb: "nearest (Fin 1152921504606846976) = 1152921504606846976"
    using nearest_of_int [of 1152921504606846976] by simp
  have 3: "\<exists>m. formatNumber (Fin 1152921504606846976) = int_string m
          \<and> round64 (of_int m) = Fin 1152921504606846976"
    using formatNumber_cases [of "Fin 1152921504606846976"] fb nb
    by (simp add: vb round64_2_60)
  have ff: "js_isFinite (Fin (- (5 / 4)))" by (simp add: js_isFinite_def)
  have 4: "formatNumber (Fin (- (5 / 4))) = ''-1.25''"
    using formatNumber_cases [of "Fin (- (5 / 4))"] ff not_near_integer_5_4
    by (simp add: std_fixed_5_4 std_strip_5_4)
  have 5: "formatNumber (js_Number ''4'') = ''4''"
    using formatNumber_cases [of NaN] by simp
  have "dec_digits 12 = ''12''"
    by (simp add: dec_digits.simps [of 12] dec_digits_small digit_char_simps)
  then have 6: "formatNumber (Fin (- 12)) = ''-12''"
    using formatNumber_cases [of NaN "- 12"] by (simp add: int_string_def)
  from 1 f7 n7 2 3 not_near_integer_5_4 4 5 6 show ?thesis by blast
qed

text \<open>
  The claim as stated fails from \<open>10 ^ 21\<close> on, where \<open>String\<close> writes an integer in
  exponent notation: \<open>1.5e21\<close> is finite and an integer, and its format is \<open>1.5e+21\<close>,
  with a fractional part.
\<close>

theorem formatNumber_counterexample:
  "js_isFinite (Fin 1500000000000000000000)
   \<and> near_integer (Fin 1500000000000000000000)
   \<and> nearest (Fin 1500000000000000000000) = 1500000000000000000000
   \<and> formatNumber (Fin 1500000000000000000000) = ''1.5e+21''"
proof -
  have f: "js_isFinite (Fin 1500000000000000000000)" by (simp add: js_isFinite_def)
  have n: "near_integer (Fin 1500000000000000000000)"
    by (rule near_integer_int) (simp add: is_int_def)
  have v: "nearest (Fin 1500000000000000000000) = 1500000000000000000000"
    using nearest_of_int [of 1500000000000000000000] by simp
  have "formatNumber (Fin 1500000000000000000000) = js_toString (Fin 1500000000000000000000)"
    using formatNumber_near [OF f n] by (simp only: v) simp
  also have "\<dots> = ''1.5e+21''"
    by (simp add: ilog10_15e20 shortest_15e20 render_digits_15 del: Suc_numeral shortest.simps)
  finally show ?thesis using f n v by simp
qed

end
